theory Spec2Isabelle
  imports Main
begin

section \<open>Strings of the Go runtime\<close>

text \<open>
  A Go string is a sequence of bytes, and \<open>len\<close> counts bytes; it is modelled by
  \<^typ>\<open>string\<close>. Packages \<open>strings\<close> and \<open>unicode/utf8\<close> read a string as UTF-8: a
  code point (a \<open>rune\<close>) is a natural number here, and a byte that starts no valid
  encoding reads as the code point \<open>RuneError\<close>, one byte wide. The functions of the Go
  library that \<open>query.go\<close> calls are modelled after the library: \<open>utf8.EncodeRune\<close>,
  \<open>utf8.DecodeRune\<close>, \<open>strings.Map\<close>, \<open>strings.ToLower\<close>, \<open>unicode.ToLower\<close>,
  \<open>strings.TrimSpace\<close>, \<open>strings.FieldsFunc\<close>, \<open>strings.Join\<close>.

  One table of the library is a parameter: the case table \<open>unicode.CaseRanges\<close>, read
  through \<open>unicode.To(unicode.LowerCase, r)\<close>. It is the function \<open>tbl\<close> wherever text is
  lowercased; \<open>unicode.ToLower\<close> consults it for the code points above \<open>0x7F\<close> only.
\<close>

subsection \<open>UTF-8\<close>

definition validRune :: "nat \<Rightarrow> bool" where
  \<comment> \<open>a Unicode scalar value: at most \<open>0x10FFFF\<close> and no surrogate\<close>
  "validRune r = (r < 0xD800 \<or> (0xDFFF < r \<and> r \<le> 0x10FFFF))"

definition RuneError :: nat where
  "RuneError = 0xFFFD"

definition encodeBytes :: "nat \<Rightarrow> nat list" where
  \<comment> \<open>the bytes that \<open>utf8.EncodeRune\<close> writes; a value that is no scalar value is
      written as \<open>RuneError\<close>\<close>
  "encodeBytes r =
     (if r < 0x80 then [r]
      else if r < 0x800 then [0xC0 + r div 64, 0x80 + r mod 64]
      else if \<not> validRune r then [0xEF, 0xBF, 0xBD]
      else if r < 0x10000 then [0xE0 + r div 4096, 0x80 + r div 64 mod 64, 0x80 + r mod 64]
      else [0xF0 + r div 262144, 0x80 + r div 4096 mod 64, 0x80 + r div 64 mod 64,
            0x80 + r mod 64])"

definition EncodeRune :: "nat \<Rightarrow> string" where
  "EncodeRune r = map char_of (encodeBytes r)"

definition cont :: "nat \<Rightarrow> bool" where
  \<comment> \<open>a continuation byte\<close>
  "cont b = (0x80 \<le> b \<and> b \<le> 0xBF)"

definition acceptLo :: "nat \<Rightarrow> nat" where
  \<comment> \<open>the least second byte that the first byte \<open>p0\<close> accepts (no overlong encoding)\<close>
  "acceptLo p0 = (if p0 = 0xE0 then 0xA0 else if p0 = 0xF0 then 0x90 else 0x80)"

definition acceptHi :: "nat \<Rightarrow> nat" where
  \<comment> \<open>the greatest second byte that the first byte \<open>p0\<close> accepts (no surrogate, nothing
      above \<open>0x10FFFF\<close>)\<close>
  "acceptHi p0 = (if p0 = 0xED then 0x9F else if p0 = 0xF4 then 0x8F else 0xBF)"

definition decodeFrom :: "nat \<Rightarrow> nat list \<Rightarrow> nat \<times> nat" where
  \<comment> \<open>the code point that starts with byte \<open>p0\<close>, followed by \<open>ps\<close>, and its width\<close>
  "decodeFrom p0 ps =
     (if p0 < 0x80 then (p0, 1)
      else if p0 < 0xC2 \<or> 0xF4 < p0 then (RuneError, 1)
      else if p0 < 0xE0 then
        (case ps of
           b1 # _ \<Rightarrow> if cont b1 then (p0 mod 32 * 64 + b1 mod 64, 2) else (RuneError, 1)
         | _ \<Rightarrow> (RuneError, 1))
      else if p0 < 0xF0 then
        (case ps of
           b1 # b2 # _ \<Rightarrow>
             if acceptLo p0 \<le> b1 \<and> b1 \<le> acceptHi p0 \<and> cont b2
             then (p0 mod 16 * 4096 + b1 mod 64 * 64 + b2 mod 64, 3) else (RuneError, 1)
         | _ \<Rightarrow> (RuneError, 1))
      else
        (case ps of
           b1 # b2 # b3 # _ \<Rightarrow>
             if acceptLo p0 \<le> b1 \<and> b1 \<le> acceptHi p0 \<and> cont b2 \<and> cont b3
             then (p0 mod 8 * 262144 + b1 mod 64 * 4096 + b2 mod 64 * 64 + b3 mod 64, 4)
             else (RuneError, 1)
         | _ \<Rightarrow> (RuneError, 1)))"

definition decodeBytes :: "nat list \<Rightarrow> nat \<times> nat" where
  "decodeBytes bs = (case bs of [] \<Rightarrow> (RuneError, 0) | p0 # ps \<Rightarrow> decodeFrom p0 ps)"

definition DecodeRune :: "string \<Rightarrow> nat \<times> nat" where
  \<comment> \<open>\<open>utf8.DecodeRuneInString\<close>: the first code point and its width in bytes\<close>
  "DecodeRune s = decodeBytes (map of_char s)"

fun runesOf :: "string \<Rightarrow> nat list" where
  \<comment> \<open>\<open>for _, c := range s\<close>: the code points of \<open>s\<close> in order\<close>
  "runesOf [] = []"
| "runesOf (c # cs) =
     fst (DecodeRune (c # cs)) # runesOf (drop (snd (DecodeRune (c # cs)) - 1) cs)"

subsection \<open>\<open>strings.TrimSpace\<close>\<close>

text \<open>
  \<open>TrimSpace\<close> removes leading and trailing white space as Unicode defines it: the code
  points for which \<open>unicode.IsSpace\<close> holds. A string starts (ends) with such a code point
  exactly when it starts (ends) with the code point's encoding, so trimming is removing
  these encodings from both ends for as long as one is there.
\<close>

definition spaceRunes :: "nat list" where
  \<comment> \<open>\<open>unicode.IsSpace\<close>: the code points with the property \<open>White_Space\<close>\<close>
  "spaceRunes =
     [0x09, 0x0A, 0x0B, 0x0C, 0x0D, 0x20, 0x85, 0xA0, 0x1680,
      0x2000, 0x2001, 0x2002, 0x2003, 0x2004, 0x2005, 0x2006, 0x2007, 0x2008, 0x2009, 0x200A,
      0x2028, 0x2029, 0x202F, 0x205F, 0x3000]"

definition spaceEncodings :: "string list" where
  "spaceEncodings = map EncodeRune spaceRunes"

function dropSpaces :: "string list \<Rightarrow> string \<Rightarrow> string" where
  \<comment> \<open>\<open>s\<close> without its longest prefix made of strings of \<open>encs\<close>\<close>
  "dropSpaces encs s =
     (case find (\<lambda>e. e \<noteq> [] \<and> take (length e) s = e) encs of
        None \<Rightarrow> s
      | Some e \<Rightarrow> dropSpaces encs (drop (length e) s))"
  by pat_completeness auto
termination
proof (relation "measure (\<lambda>(encs, s). length s)")
  show "wf (measure (\<lambda>(encs, s). length s))"
    by simp
next
  fix encs :: "string list" and s e :: string
  assume "find (\<lambda>e. e \<noteq> [] \<and> take (length e) s = e) encs = Some e"
  then have "e \<noteq> []" and "take (length e) s = e"
    by (auto simp: find_Some_iff)
  then have "0 < length e" and "length e \<le> length s"
    using length_take [of "length e" s] by auto
  then show "((encs, drop (length e) s), (encs, s)) \<in> measure (\<lambda>(encs, s). length s)"
    by (cases e) auto
qed

declare dropSpaces.simps [simp del]

definition TrimSpace :: "string \<Rightarrow> string" where
  "TrimSpace s = rev (dropSpaces (map rev spaceEncodings) (rev (dropSpaces spaceEncodings s)))"

subsection \<open>\<open>strings.ToLower\<close>\<close>

definition lowerByte :: "char \<Rightarrow> char" where
  \<comment> \<open>\<open>if 'A' <= c && c <= 'Z' { c += 'a' - 'A' }\<close>\<close>
  "lowerByte c =
     (if (65::nat) \<le> of_char c \<and> of_char c \<le> (90::nat)
      then char_of (of_char c + (32::nat)) else c)"

definition unicode_ToLower :: "(nat \<Rightarrow> nat) \<Rightarrow> nat \<Rightarrow> nat" where
  \<comment> \<open>\<open>unicode.ToLower\<close>: ASCII by arithmetic, the rest by the case table\<close>
  "unicode_ToLower tbl r =
     (if r \<le> 0x7F then (if 0x41 \<le> r \<and> r \<le> 0x5A then r + 0x20 else r) else tbl r)"

definition MapRunes :: "(nat \<Rightarrow> nat) \<Rightarrow> string \<Rightarrow> string" where
  \<comment> \<open>\<open>strings.Map(mapping, s)\<close> for a mapping that drops no code point: every code
      point of \<open>s\<close> is replaced by the encoding of its image\<close>
  "MapRunes mapping s = concat (map (\<lambda>r. EncodeRune (mapping r)) (runesOf s))"

definition ToLower :: "(nat \<Rightarrow> nat) \<Rightarrow> string \<Rightarrow> string" where
  \<comment> \<open>a string of ASCII bytes is lowercased byte by byte, any other one by
      \<open>Map(unicode.ToLower, s)\<close>\<close>
  "ToLower tbl s =
     (if list_all (\<lambda>c. of_char c < (0x80::nat)) s then map lowerByte s
      else MapRunes (unicode_ToLower tbl) s)"

subsection \<open>\<open>strings.FieldsFunc\<close>, \<open>strings.Join\<close>, \<open>%d\<close>\<close>

text \<open>
  \<open>strings.FieldsFunc(s, f)\<close> walks the string once, remembers where the current field
  started, and closes the field at the first separator after it; a field still open at
  the end of the string is closed there. \<open>cur\<close> holds the bytes of the open field, last
  byte first (no field is open when it is empty). Go walks the string by code points and
  the model by bytes; for a predicate that holds of ASCII characters only, as the one of
  \<open>prepareSearchTerms\<close>, the fields are the same, since no byte of a longer encoding
  and no invalid byte is an ASCII byte.
\<close>

fun fieldsLoop :: "(char \<Rightarrow> bool) \<Rightarrow> string \<Rightarrow> string \<Rightarrow> string list" where
  "fieldsLoop f cur [] = (if cur = [] then [] else [rev cur])"
| "fieldsLoop f cur (c # cs) =
     (if f c then (if cur = [] then fieldsLoop f [] cs else rev cur # fieldsLoop f [] cs)
      else fieldsLoop f (c # cur) cs)"

definition FieldsFunc :: "string \<Rightarrow> (char \<Rightarrow> bool) \<Rightarrow> string list" where
  "FieldsFunc s f = fieldsLoop f [] s"

fun Join :: "string list \<Rightarrow> string \<Rightarrow> string" where
  \<comment> \<open>\<open>strings.Join(elems, sep)\<close>\<close>
  "Join [] sep = []"
| "Join [e] sep = e"
| "Join (e # es) sep = e @ sep @ Join es sep"

definition digitByte :: "nat \<Rightarrow> char" where
  "digitByte d = ''0123456789'' ! d"

fun itoa :: "nat \<Rightarrow> string" where
  \<comment> \<open>the verb \<open>%d\<close> of \<open>fmt.Sprintf\<close> on a non-negative \<open>int\<close>\<close>
  "itoa n = (if n < 10 then [digitByte n] else itoa (n div 10) @ [digitByte (n mod 10)])"

declare itoa.simps [simp del]

section \<open>The term tokenizer: \<open>prepareSearchTerms\<close>\<close>

definition isSeparator :: "char \<Rightarrow> bool" where
  \<comment> \<open>the function literal passed to \<open>strings.FieldsFunc\<close>\<close>
  "isSeparator c =
     (c = CHR '' '' \<or> c = CHR '','' \<or> c = CHR '';'' \<or> c = CHR 0x09 \<or> c = CHR 0x0A)"

definition stopWordList :: "string list" where
  "stopWordList =
     [''the'', ''a'', ''an'', ''and'', ''or'', ''but'', ''in'', ''on'', ''at'', ''to'',
      ''for'', ''of'', ''with'', ''by'', ''is'', ''are'', ''was'', ''were'', ''be'',
      ''been'', ''have'', ''has'', ''had'', ''do'', ''does'', ''did'', ''will'',
      ''would'', ''could'', ''should'', ''want'', ''like'', ''buy'', ''need'',
      ''please'', ''give'']"

definition stopWords :: "string \<Rightarrow> bool" where
  \<comment> \<open>the \<open>map[string]bool\<close> literal: a key that is absent reads as \<open>false\<close>\<close>
  "stopWords term = (term \<in> set stopWordList)"

fun filterLoop :: "string list \<Rightarrow> string list \<Rightarrow> string list" where
  \<comment> \<open>\<open>for _, term := range rawTerms\<close>, with \<open>filtered\<close> as the accumulator\<close>
  "filterLoop [] filtered = filtered"
| "filterLoop (term # rawTerms) filtered =
     (if length term < 2 then filterLoop rawTerms filtered
      else if stopWords term then filterLoop rawTerms filtered
      else filterLoop rawTerms (filtered @ [term]))"

definition cleanedText :: "(nat \<Rightarrow> nat) \<Rightarrow> string \<Rightarrow> string" where
  \<comment> \<open>the local \<open>cleaned\<close>\<close>
  "cleanedText tbl queryText = ToLower tbl (TrimSpace queryText)"

definition filteredTerms :: "(nat \<Rightarrow> nat) \<Rightarrow> string \<Rightarrow> string list" where
  \<comment> \<open>the local \<open>filtered\<close> when the loop has ended\<close>
  "filteredTerms tbl queryText = filterLoop (FieldsFunc (cleanedText tbl queryText) isSeparator) []"

definition prepareSearchTerms :: "(nat \<Rightarrow> nat) \<Rightarrow> string \<Rightarrow> string list" where
  "prepareSearchTerms tbl queryText =
     (let cleaned = ToLower tbl (TrimSpace queryText);
          rawTerms = FieldsFunc cleaned isSeparator;
          filtered = filterLoop rawTerms []
      in if length filtered = 0 then [cleaned] else filtered)"

section \<open>The HTTP exchange and the database, as the handlers see them\<close>

text \<open>
  \<open>query.go\<close> holds two handlers of the same name. The one with the ranking
  \<open>ORDER BY\<close> keeps the source's names here; the names of the generic one end in
  \<open>G\<close>.
\<close>

record QueryRequest =
  Model :: string
  Fields :: "string list"
  QueryText :: string
  MaxResults :: int
  Fuzzy :: bool

record QueryRequestG =
  ModelG :: string
  QueryTextG :: string
  FieldsG :: "string list"
  MaxResultsG :: int

text \<open>
  A request: its \<open>Method\<close> and what \<open>json.NewDecoder(r.Body).Decode(&req)\<close> made of its
  body (\<open>None\<close> when \<open>Decode\<close> returns an error). A field absent from the JSON document
  keeps Go's zero value: the empty string, the empty list, \<open>0\<close>.
\<close>

record 'b http_request =
  Method :: string
  Body :: "'b option"

datatype arg = ArgString string | ArgInt int

type_synonym 'v Record = "string \<rightharpoonup> 'v"

datatype 'v payload =
    PlainText string
  | ResultsArray "'v Record list"
  | ResultsCount "'v Record list" nat

record 'v http_response =
  status :: nat
  payload :: "'v payload"

definition http_Error :: "string \<Rightarrow> nat \<Rightarrow> 'v http_response" where
  \<comment> \<open>\<open>http.Error(w, msg, code)\<close>: the status and the message on a line of its own\<close>
  "http_Error msg code = \<lparr>status = code, payload = PlainText (msg @ ''\<newline>'')\<rparr>"

text \<open>
  What \<open>db.QueryContext\<close> gives back: an error (which covers the two-second deadline),
  or a cursor. The cursor is the answer of \<open>rows.Columns()\<close> (\<open>None\<close> for an error),
  the outcome of \<open>rows.Scan\<close> for every row that \<open>rows.Next()\<close> reaches, and whether
  \<open>rows.Err()\<close> reports an error when the iteration has ended.
\<close>

datatype 'v scanned = ScanOk "'v list" | ScanFails

datatype 'v rows = Rows (Columns: "string list option") (Scans: "'v scanned list") (Err: bool)

datatype 'v query_result = QueryFails | QueryOk "'v rows"

type_synonym 'v database = "string \<Rightarrow> arg list \<Rightarrow> 'v query_result"

type_synonym db_call = "string \<times> arg list"

fun rowMap :: "string list \<Rightarrow> 'v list \<Rightarrow> 'v Record \<Rightarrow> 'v Record" where
  \<comment> \<open>\<open>for i, colName := range cols { rowMap[colName] = values[i] }\<close>; \<open>values\<close> is
      made with \<open>len(cols)\<close> entries\<close>
  "rowMap [] values m = m"
| "rowMap (colName # cols) [] m = m"
| "rowMap (colName # cols) (v # values) m = rowMap cols values (m(colName \<mapsto> v))"

fun rowsLoop :: "string list \<Rightarrow> 'v scanned list \<Rightarrow> 'v Record list \<Rightarrow> 'v Record list option" where
  \<comment> \<open>\<open>for rows.Next() { ... }\<close>; \<open>None\<close> when a \<open>rows.Scan\<close> fails\<close>
  "rowsLoop cols [] results = Some results"
| "rowsLoop cols (ScanFails # rest) results = None"
| "rowsLoop cols (ScanOk values # rest) results =
     rowsLoop cols rest (results @ [rowMap cols values Map.empty])"

section \<open>The ranking handler\<close>

fun allowedSetLoop :: "string list \<Rightarrow> (string \<Rightarrow> bool) \<Rightarrow> (string \<Rightarrow> bool)" where
  \<comment> \<open>\<open>for _, f := range allowedFields { allowedSet[f] = true }\<close>\<close>
  "allowedSetLoop [] allowedSet = allowedSet"
| "allowedSetLoop (f # allowedFields) allowedSet =
     allowedSetLoop allowedFields (allowedSet(f := True))"

fun fieldsCheck :: "(string \<Rightarrow> bool) \<Rightarrow> string list \<Rightarrow> string option" where
  \<comment> \<open>\<open>for _, f := range req.Fields { if !allowedSet[f] { ...; return } }\<close>: the field
      that stops the loop\<close>
  "fieldsCheck allowedSet [] = None"
| "fieldsCheck allowedSet (f # reqFields) =
     (if \<not> allowedSet f then Some f else fieldsCheck allowedSet reqFields)"

definition fieldNotAllowed :: "string \<Rightarrow> string \<Rightarrow> string" where
  \<comment> \<open>\<open>fmt.Sprintf("field '%s' not allowed for model '%s'", f, req.Model)\<close>\<close>
  "fieldNotAllowed f model =
     ''field '' @ [CHR 0x27] @ f @ [CHR 0x27] @ '' not allowed for model '' @
     [CHR 0x27] @ model @ [CHR 0x27]"

definition searchCols :: "string list" where
  "searchCols = [''name'', ''category'']"

text \<open>
  \<open>argIdx\<close> is a Go \<open>int\<close> that starts at 1 and grows by two for each term; it is
  modelled by a natural number.
\<close>

fun colsLoop ::
  "string list \<Rightarrow> string \<Rightarrow> string list \<times> arg list \<times> nat \<Rightarrow> string list \<times> arg list \<times> nat" where
  \<comment> \<open>\<open>for _, col := range searchCols\<close>, on \<open>(parts, args, argIdx)\<close>\<close>
  "colsLoop [] likePattern st = st"
| "colsLoop (col # cols) likePattern (parts, args, argIdx) =
     colsLoop cols likePattern
       (parts @ [col @ '' ILIKE $'' @ itoa argIdx], args @ [ArgString likePattern], argIdx + 1)"

fun termsLoop ::
  "string list \<Rightarrow> string list \<times> arg list \<times> nat \<Rightarrow> string list \<times> arg list \<times> nat" where
  \<comment> \<open>\<open>for _, t := range terms\<close>, on \<open>(whereClauses, args, argIdx)\<close>\<close>
  "termsLoop [] st = st"
| "termsLoop (t # terms) (whereClauses, args, argIdx) =
     (let likePattern = ''%'' @ t @ ''%'' in
      case colsLoop searchCols likePattern ([], args, argIdx) of
        (parts, args', argIdx') \<Rightarrow>
          termsLoop terms
            (whereClauses @ [''('' @ Join parts '' OR '' @ '')''], args', argIdx'))"

definition orderClauseText :: "nat \<Rightarrow> nat \<Rightarrow> string" where
  \<comment> \<open>the raw string of \<open>orderClause\<close>, with its two \<open>$%d\<close>\<close>
  "orderClauseText i j =
     ''\<newline>            CASE'' @
     ''\<newline>                WHEN LOWER(name) LIKE LOWER($'' @ itoa i @ '') THEN 1'' @
     ''\<newline>                WHEN LOWER(category) LIKE LOWER($'' @ itoa j @ '') THEN 2'' @
     ''\<newline>                ELSE 3'' @
     ''\<newline>            END, name ASC'' @
     ''\<newline>        ''"

definition queryStrText :: "string \<Rightarrow> string \<Rightarrow> string \<Rightarrow> string \<Rightarrow> nat \<Rightarrow> string" where
  \<comment> \<open>the raw string of \<open>queryStr\<close>, with its four \<open>%s\<close> and its \<open>$%d\<close>\<close>
  "queryStrText selectCols model whereClause orderClause limitIdx =
     ''\<newline>            SELECT '' @ selectCols @
     ''\<newline>              FROM '' @ model @
     ''\<newline>             WHERE '' @ whereClause @
     ''\<newline>          ORDER BY '' @ orderClause @
     ''\<newline>             LIMIT $'' @ itoa limitIdx @
     ''\<newline>        ''"

definition buildQuery :: "(nat \<Rightarrow> nat) \<Rightarrow> QueryRequest \<Rightarrow> string \<times> arg list" where
  \<comment> \<open>from \<open>// Build SELECT clause\<close> to \<open>// Final SQL\<close>\<close>
  "buildQuery tbl req =
     (let selectCols = Join (Fields req) '', '';
          terms = prepareSearchTerms tbl (QueryText req)
      in case termsLoop terms ([], [], 1) of
        (whereClauses, args, argIdx) \<Rightarrow>
          (let whereClause =
                 (if length whereClauses > 0 then Join whereClauses '' AND '' else ''1=1'');
               exactPattern = ''%'' @ ToLower tbl (QueryText req) @ ''%'';
               orderClause = orderClauseText argIdx (argIdx + 1);
               args2 = args @ [ArgString exactPattern, ArgString exactPattern];
               argIdx2 = argIdx + 2;
               args3 = args2 @ [ArgInt (MaxResults req)];
               limitIdx = argIdx2
           in (queryStrText selectCols (Model req) whereClause orderClause limitIdx, args3)))"

definition respond :: "'v query_result \<Rightarrow> 'v http_response" where
  \<comment> \<open>from \<open>rows, err := db.QueryContext(...)\<close> to the end; the error of
      \<open>rows.Columns()\<close> is dropped, which leaves \<open>cols\<close> empty\<close>
  "respond r =
     (case r of
        QueryFails \<Rightarrow> http_Error ''database query error'' 500
      | QueryOk rows \<Rightarrow>
          (let cols = (case Columns rows of None \<Rightarrow> [] | Some cs \<Rightarrow> cs) in
           case rowsLoop cols (Scans rows) [] of
             None \<Rightarrow> http_Error ''row scan error'' 500
           | Some results \<Rightarrow>
               if Err rows then http_Error ''row iteration error'' 500
               else \<lparr>status = 200, payload = ResultsArray results\<rparr>))"

definition clampMaxResults :: "QueryRequest \<Rightarrow> QueryRequest" where
  \<comment> \<open>\<open>if req.MaxResults <= 0 || req.MaxResults > 100 { req.MaxResults = 10 }\<close>\<close>
  "clampMaxResults req =
     (if MaxResults req \<le> 0 \<or> MaxResults req > 100 then req\<lparr>MaxResults := 10\<rparr> else req)"

text \<open>
  The handler returns its response and the statements it has sent to the database, in
  order. Its first argument is the case table of the runtime, which the handler reaches
  through \<open>strings.ToLower\<close>.
\<close>

definition MakeQueryHandler ::
  "(nat \<Rightarrow> nat) \<Rightarrow> 'v database \<Rightarrow> (string \<rightharpoonup> string list) \<Rightarrow> QueryRequest http_request \<Rightarrow>
   'v http_response \<times> db_call list" where
  "MakeQueryHandler tbl db allowed r =
     (if Method r \<noteq> ''POST'' then (http_Error ''method not allowed'' 405, [])
      else case Body r of
        None \<Rightarrow> (http_Error ''invalid JSON payload'' 400, [])
      | Some req0 \<Rightarrow>
          if Model req0 = [] then
            (http_Error ([CHR 0x27] @ ''model'' @ [CHR 0x27] @ '' is required'') 400, [])
          else if length (Fields req0) = 0 then
            (http_Error ([CHR 0x27] @ ''fields'' @ [CHR 0x27] @ '' array cannot be empty'') 400, [])
          else if QueryText req0 = [] then
            (http_Error ([CHR 0x27] @ ''queryText'' @ [CHR 0x27] @ '' is required'') 400, [])
          else
            (let req = clampMaxResults req0 in
             case allowed (Model req) of
               None \<Rightarrow> (http_Error ''model not found'' 400, [])
             | Some allowedFields \<Rightarrow>
                 (case fieldsCheck (allowedSetLoop allowedFields (\<lambda>f. False)) (Fields req) of
                    Some f \<Rightarrow> (http_Error (fieldNotAllowed f (Model req)) 400, [])
                  | None \<Rightarrow>
                      (case buildQuery tbl req of
                         (queryStr, args) \<Rightarrow> (respond (db queryStr args), [(queryStr, args)])))))"

section \<open>The generic handler\<close>

fun matchLoop :: "string \<Rightarrow> string list \<Rightarrow> string list \<Rightarrow> string list" where
  \<comment> \<open>\<open>for _, ac := range cols { if f == ac { fieldsToSearch = append(fieldsToSearch, f) } }\<close>\<close>
  "matchLoop f [] fieldsToSearch = fieldsToSearch"
| "matchLoop f (ac # cols) fieldsToSearch =
     (if f = ac then matchLoop f cols (fieldsToSearch @ [f]) else matchLoop f cols fieldsToSearch)"

fun validateLoop :: "string list \<Rightarrow> string list \<Rightarrow> string list \<Rightarrow> string list" where
  \<comment> \<open>\<open>for _, f := range req.Fields\<close>\<close>
  "validateLoop [] cols fieldsToSearch = fieldsToSearch"
| "validateLoop (f # reqFields) cols fieldsToSearch =
     validateLoop reqFields cols (matchLoop f cols fieldsToSearch)"

fun clausesLoop :: "string list \<Rightarrow> string list \<Rightarrow> string list" where
  \<comment> \<open>\<open>clauses = append(clauses, fmt.Sprintf("%s ILIKE '%%' || $1 || '%%'", f))\<close>\<close>
  "clausesLoop [] clauses = clauses"
| "clausesLoop (f # fieldsToSearch) clauses =
     clausesLoop fieldsToSearch
       (clauses @ [f @ '' ILIKE '%' || $1 || '%'' @ [CHR 0x27]])"

definition respondG :: "'v query_result \<Rightarrow> 'v http_response" where
  "respondG r =
     (case r of
        QueryFails \<Rightarrow> http_Error ''database query error'' 500
      | QueryOk rows \<Rightarrow>
          (case Columns rows of
             None \<Rightarrow> http_Error ''error fetching columns'' 500
           | Some colsNames \<Rightarrow>
               (case rowsLoop colsNames (Scans rows) [] of
                  None \<Rightarrow> http_Error ''error scanning row'' 500
                | Some results \<Rightarrow>
                    if Err rows then http_Error ''row iteration error'' 500
                    else \<lparr>status = 200, payload = ResultsCount results (length results)\<rparr>)))"

definition clampMaxResultsG :: "QueryRequestG \<Rightarrow> QueryRequestG" where
  "clampMaxResultsG req =
     (if MaxResultsG req \<le> 0 \<or> MaxResultsG req > 100 then req\<lparr>MaxResultsG := 10\<rparr> else req)"

definition MakeQueryHandlerG ::
  "'v database \<Rightarrow> (string \<rightharpoonup> string list) \<Rightarrow> QueryRequestG http_request \<Rightarrow>
   'v http_response \<times> db_call list" where
  "MakeQueryHandlerG db allowed r =
     (if Method r \<noteq> ''POST'' then (http_Error ''method not allowed'' 405, [])
      else case Body r of
        None \<Rightarrow> (http_Error ''invalid JSON payload'' 400, [])
      | Some req0 \<Rightarrow>
          (case allowed (ModelG req0) of
             None \<Rightarrow> (http_Error ''model not allowed'' 400, [])
           | Some cols \<Rightarrow>
               (let fieldsToSearch = validateLoop (FieldsG req0) cols [] in
                if length fieldsToSearch = 0 then
                  (http_Error ''no valid fields to search'' 400, [])
                else if length (QueryTextG req0) < 1 then
                  (http_Error ''queryText must be non-empty'' 400, [])
                else
                  (let req = clampMaxResultsG req0;
                       whereG = Join (clausesLoop fieldsToSearch []) '' OR '';
                       query = ''SELECT * FROM '' @ ModelG req @ '' WHERE '' @ whereG @ '' LIMIT $2'';
                       args = [ArgString (QueryTextG req), ArgInt (MaxResultsG req)]
                   in (respondG (db query args), [(query, args)])))))"

text \<open>
  The statement and the arguments that the generic handler sends for a request whose
  model has the columns \<open>cols\<close>.
\<close>

definition queryG :: "QueryRequestG \<Rightarrow> string list \<Rightarrow> db_call" where
  "queryG req cols =
     (''SELECT * FROM '' @ ModelG req @ '' WHERE '' @
        Join (clausesLoop (validateLoop (FieldsG req) cols []) []) '' OR '' @ '' LIMIT $2'',
      [ArgString (QueryTextG req), ArgInt (MaxResultsG (clampMaxResultsG req))])"

section \<open>The allow-list of \<open>cmd/server/main.go\<close>\<close>

definition allowedMain :: "string \<rightharpoonup> string list" where
  "allowedMain =
     [''items'' \<mapsto> [''id'', ''name'', ''category'', ''price_ugx'', ''available''],
      ''users'' \<mapsto> [''id'', ''email'', ''role''],
      ''orders'' \<mapsto> [''id'', ''user_id'', ''status'', ''total_cost'']]"

section \<open>Reference definitions for the tokenizer\<close>

text \<open>
  Splitting as a specification: the fields of a string are its maximal runs of bytes that
  are not separators, from left to right.
\<close>

function splitOn :: "(char \<Rightarrow> bool) \<Rightarrow> string \<Rightarrow> string list" where
  "splitOn sep [] = []"
| "splitOn sep (c # cs) =
     (if sep c then splitOn sep cs
      else takeWhile (\<lambda>x. \<not> sep x) (c # cs) # splitOn sep (dropWhile (\<lambda>x. \<not> sep x) cs))"
  by pat_completeness auto
termination
  by (relation "measure (\<lambda>(sep, s). length s)")
    (auto simp: less_Suc_eq_le length_dropWhile_le)

definition keptToken :: "string \<Rightarrow> bool" where
  \<comment> \<open>neither shorter than two bytes nor a stop word\<close>
  "keptToken t = (\<not> length t < 2 \<and> t \<notin> set stopWordList)"

definition fiveSeparators :: "char \<Rightarrow> bool" where
  \<comment> \<open>space, tab, newline, comma, semicolon\<close>
  "fiveSeparators c = (c \<in> set [CHR 0x20, CHR 0x09, CHR 0x0A, CHR '','', CHR '';''])"

definition tokensOnFive :: "(nat \<Rightarrow> nat) \<Rightarrow> string \<Rightarrow> string list" where
  \<comment> \<open>lowercase and trim, split on the five separators, filter\<close>
  "tokensOnFive tbl q = filter keptToken (splitOn fiveSeparators (ToLower tbl (TrimSpace q)))"

definition lowercase :: "(nat \<Rightarrow> nat) \<Rightarrow> string \<Rightarrow> bool" where
  \<comment> \<open>lowercasing changes nothing\<close>
  "lowercase tbl t = (ToLower tbl t = t)"

text \<open>
  The same with the separators and the length read as the words \<open>white space\<close> and
  \<open>characters\<close> say: every white-space character separates (the ASCII ones are enough
  for what follows), and the length of a token is its number of code points.
\<close>

definition asciiSpace :: "char \<Rightarrow> bool" where
  \<comment> \<open>tab, newline, vertical tab, form feed, carriage return, space\<close>
  "asciiSpace c = (c \<in> set [CHR 0x09, CHR 0x0A, CHR 0x0B, CHR 0x0C, CHR 0x0D, CHR 0x20])"

definition whitespaceOrPunct :: "char \<Rightarrow> bool" where
  "whitespaceOrPunct c = (asciiSpace c \<or> c = CHR '','' \<or> c = CHR '';'')"

definition keptWord :: "string \<Rightarrow> bool" where
  \<comment> \<open>neither shorter than two characters nor a stop word\<close>
  "keptWord t = (\<not> length (runesOf t) < 2 \<and> t \<notin> set stopWordList)"

definition tokensOnWhitespace :: "(nat \<Rightarrow> nat) \<Rightarrow> string \<Rightarrow> string list" where
  \<comment> \<open>lowercase and trim, split on white space, comma and semicolon, filter\<close>
  "tokensOnWhitespace tbl q =
     filter keptWord (splitOn whitespaceOrPunct (ToLower tbl (TrimSpace q)))"

text \<open>
  For the proofs: the encoding of a list of code points, a predicate on bytes that holds
  of ASCII bytes only, the same predicate on code points, and the code points that
  \<open>unicode.ToLower\<close> leaves as they are.
\<close>

definition encAll :: "nat list \<Rightarrow> string" where
  "encAll rs = concat (map EncodeRune rs)"

definition asciiOnly :: "(char \<Rightarrow> bool) \<Rightarrow> bool" where
  "asciiOnly sep = (\<forall>c. sep c \<longrightarrow> of_char c < (0x80::nat))"

definition sepRune :: "(char \<Rightarrow> bool) \<Rightarrow> nat \<Rightarrow> bool" where
  "sepRune sep r = (r < 0x80 \<and> sep (char_of r))"

definition lowerFixed :: "(nat \<Rightarrow> nat) \<Rightarrow> nat \<Rightarrow> bool" where
  "lowerFixed tbl r = (validRune r \<and> unicode_ToLower tbl r = r)"

section \<open>Reading the generated statement\<close>

text \<open>
  What the claims say about the statement is said with these: the text of one group of
  the \<open>WHERE\<close> clause and of the groups of \<open>n\<close> terms, the patterns bound for a list of
  terms, and the positional parameters that a text refers to (every \<open>$\<close> followed by
  digits, in order of appearance).
\<close>

definition termGroup :: "nat \<Rightarrow> string" where
  "termGroup i = ''(name ILIKE $'' @ itoa i @ '' OR category ILIKE $'' @ itoa (i + 1) @ '')''"

fun termGroups :: "nat \<Rightarrow> nat \<Rightarrow> string list" where
  "termGroups i 0 = []"
| "termGroups i (Suc n) = termGroup i # termGroups (i + 2) n"

definition likeArgs :: "string list \<Rightarrow> arg list" where
  "likeArgs ts = concat (map (\<lambda>t. [ArgString (''%'' @ t @ ''%''), ArgString (''%'' @ t @ ''%'')]) ts)"

definition isDigit :: "char \<Rightarrow> bool" where
  "isDigit c = (c \<in> set ''0123456789'')"

definition digitValue :: "char \<Rightarrow> nat" where
  "digitValue c = of_char c - 48"

definition atoi :: "string \<Rightarrow> nat" where
  "atoi ds = foldl (\<lambda>n c. 10 * n + digitValue c) 0 ds"

fun placeholders :: "string \<Rightarrow> nat list" where
  "placeholders [] = []"
| "placeholders (c # cs) =
     (if c = CHR ''$'' \<and> takeWhile isDigit cs \<noteq> []
      then atoi (takeWhile isDigit cs) # placeholders cs
      else placeholders cs)"

declare placeholders.simps(2) [simp del]

definition endsNumber :: "string \<Rightarrow> bool" where
  "endsNumber t = (case t of [] \<Rightarrow> True | c # cs \<Rightarrow> \<not> isDigit c)"

definition recordOf :: "string list \<Rightarrow> 'v scanned \<Rightarrow> 'v Record" where
  "recordOf cols s = (case s of ScanOk values \<Rightarrow> rowMap cols values Map.empty | ScanFails \<Rightarrow> Map.empty)"

definition dollarFree :: "string \<Rightarrow> bool" where
  "dollarFree s = (CHR ''$'' \<notin> set s)"

section \<open>Example requests and databases\<close>

text \<open>
  A case table for the examples: the one of Unicode on the code points up to \<open>0xFF\<close>
  (the capital letters from \<open>0xC0\<close> to \<open>0xDE\<close>, the multiplication sign \<open>0xD7\<close>
  apart, have their small letter 32 places up), and nothing changed above.
\<close>

definition latin1Table :: "nat \<Rightarrow> nat" where
  "latin1Table r = (if 0xC0 \<le> r \<and> r \<le> 0xDE \<and> r \<noteq> 0xD7 then r + 0x20 else r)"

definition eclairText :: string where
  \<comment> \<open>\<open>"\u00c9clair, USB-C; stand"\<close>\<close>
  "eclairText = [CHR 0xC3, CHR 0x89] @ ''clair, USB-C; stand''"

definition eclair :: string where
  \<comment> \<open>\<open>"\u00e9clair"\<close>\<close>
  "eclair = [CHR 0xC3, CHR 0xA9] @ ''clair''"

definition lineBreakText :: string where
  \<comment> \<open>\<open>"\u00e9 laptop\r\nstand"\<close>\<close>
  "lineBreakText = [CHR 0xC3, CHR 0xA9] @ '' laptop'' @ [CHR 0x0D, CHR 0x0A] @ ''stand''"

definition failingDB :: "string database" where
  "failingDB queryStr args = QueryFails"

definition emptyDB :: "string database" where
  "emptyDB queryStr args = QueryOk (Rows (Some [''name'', ''price_ugx'']) [] False)"

definition twoRowsDB :: "string database" where
  "twoRowsDB queryStr args =
     QueryOk (Rows (Some [''name'', ''price_ugx''])
       [ScanOk [''Laptop Stand'', ''50000.00''], ScanOk [''USB Laptop Fan'', ''25000.00'']] False)"

definition laptopBody :: QueryRequest where
  "laptopBody = \<lparr>Model = ''items'', Fields = [''name'', ''price_ugx''],
     QueryText = ''Laptop stand'', MaxResults = 0, Fuzzy = False\<rparr>"

definition laptopRequest :: "QueryRequest http_request" where
  "laptopRequest = \<lparr>Method = ''POST'', Body = Some laptopBody\<rparr>"

definition laptopSQL :: string where
  "laptopSQL =
     ''\<newline>            SELECT name, price_ugx'' @
     ''\<newline>              FROM items'' @
     ''\<newline>             WHERE (name ILIKE $1 OR category ILIKE $2) AND (name ILIKE $3 OR category ILIKE $4)'' @
     ''\<newline>          ORDER BY '' @
     ''\<newline>            CASE'' @
     ''\<newline>                WHEN LOWER(name) LIKE LOWER($5) THEN 1'' @
     ''\<newline>                WHEN LOWER(category) LIKE LOWER($6) THEN 2'' @
     ''\<newline>                ELSE 3'' @
     ''\<newline>            END, name ASC'' @
     ''\<newline>        '' @
     ''\<newline>             LIMIT $7'' @
     ''\<newline>        ''"

definition laptopArgs :: "arg list" where
  "laptopArgs =
     [ArgString ''%laptop%'', ArgString ''%laptop%'', ArgString ''%stand%'', ArgString ''%stand%'',
      ArgString ''%laptop stand%'', ArgString ''%laptop stand%'', ArgInt 10]"

definition cableBody :: QueryRequest where
  "cableBody = \<lparr>Model = ''items'', Fields = [''name'', ''price_ugx''],
     QueryText = ''usb; cable'', MaxResults = 50, Fuzzy = False\<rparr>"

definition cableRequest :: "QueryRequest http_request" where
  "cableRequest = \<lparr>Method = ''POST'', Body = Some cableBody\<rparr>"

definition userBody :: QueryRequestG where
  "userBody = \<lparr>ModelG = ''items'', QueryTextG = ''stand'', FieldsG = [''name'', ''password''],
     MaxResultsG = 50\<rparr>"

definition userRequest :: "QueryRequestG http_request" where
  "userRequest = \<lparr>Method = ''POST'', Body = Some userBody\<rparr>"

definition userSQL :: string where
  "userSQL = ''SELECT * FROM items WHERE name ILIKE '%' || $1 || '%' LIMIT $2''"

definition cableArgs :: "arg list" where
  "cableArgs =
     [ArgString ''%usb%'', ArgString ''%usb%'', ArgString ''%cable%'', ArgString ''%cable%'',
      ArgString ''%usb; cable%'', ArgString ''%usb; cable%'', ArgInt 50]"

definition bogusBody :: QueryRequest where
  "bogusBody = \<lparr>Model = ''items'', Fields = [''name'', ''bogus''],
     QueryText = ''stand'', MaxResults = 10, Fuzzy = False\<rparr>"

definition bogusRequest :: "QueryRequest http_request" where
  "bogusRequest = \<lparr>Method = ''POST'', Body = Some bogusBody\<rparr>"

section \<open>Properties of the UTF-8 functions\<close>

subsection \<open>Arithmetic of the six-bit groups\<close>

lemma h32: "x < 32 \<Longrightarrow> (192 + x) mod 32 = (x::nat)"
proof -
  assume a: "x < 32"
  have "(32 * 6 + x) mod 32 = x mod 32" by (rule mod_mult_self4)
  with a show ?thesis by simp
qed

lemma h16: "x < 16 \<Longrightarrow> (224 + x) mod 16 = (x::nat)"
proof -
  assume a: "x < 16"
  have "(16 * 14 + x) mod 16 = x mod 16" by (rule mod_mult_self4)
  with a show ?thesis by simp
qed

lemma h8: "x < 8 \<Longrightarrow> (240 + x) mod 8 = (x::nat)"
proof -
  assume a: "x < 8"
  have "(8 * 30 + x) mod 8 = x mod 8" by (rule mod_mult_self4)
  with a show ?thesis by simp
qed

lemma h64: "(128 + d mod 64) mod 64 = (d::nat) mod 64"
proof -
  have "(64 * 2 + d mod 64) mod 64 = d mod 64 mod 64" by (rule mod_mult_self4)
  then show ?thesis by simp
qed

lemma d4096: "(r::nat) div 4096 = r div 64 div 64"
  by (simp add: div_mult2_eq [symmetric])

lemma d262144: "(r::nat) div 262144 = r div 64 div 64 div 64"
  by (simp add: div_mult2_eq [symmetric])

lemma digits2: "(r::nat) div 64 * 64 + r mod 64 = r"
  by (rule div_mult_mod_eq)

lemma lin3: "w = x * 64 + y \<Longrightarrow> r = w * 64 + z \<Longrightarrow> x * 4096 + y * 64 + z = (r::nat)"
  by simp

lemma lin4:
  "v = u * 64 + x \<Longrightarrow> w = v * 64 + y \<Longrightarrow> r = w * 64 + z \<Longrightarrow>
   u * 262144 + x * 4096 + y * 64 + z = (r::nat)"
  by simp

lemma digits3: "(r::nat) div 64 div 64 * 4096 + r div 64 mod 64 * 64 + r mod 64 = r"
  by (rule lin3 [OF div_mult_mod_eq [symmetric] div_mult_mod_eq [symmetric]])

lemma digits4:
  "(r::nat) div 64 div 64 div 64 * 262144 + r div 64 div 64 mod 64 * 4096 + r div 64 mod 64 * 64 +
     r mod 64 = r"
  by (rule lin4 [OF div_mult_mod_eq [symmetric] div_mult_mod_eq [symmetric]
        div_mult_mod_eq [symmetric]])


lemma decode_encode2:
  assumes "0x80 \<le> r" and "r < 0x800"
  shows "decodeFrom (0xC0 + r div 64) ((0x80 + r mod 64) # bs) = (r, 2)"
proof -
  have x: "2 \<le> r div 64" "r div 64 < 32"
    using assms by linarith+
  have m: "r mod 64 < 64"
    by simp
  have v: "(192 + r div 64) mod 32 * 64 + (128 + r mod 64) mod 64 = r"
    by (simp only: h32 [OF x(2)] h64 digits2)
  have c: "cont (128 + r mod 64)"
    using m by (simp add: cont_def)
  show ?thesis
    unfolding decodeFrom_def using x c v by simp
qed

lemma decode_encode3:
  assumes "0x800 \<le> r" and "r < 0x10000" and "validRune r"
  shows "decodeFrom (0xE0 + r div 64 div 64) ((0x80 + r div 64 mod 64) # (0x80 + r mod 64) # bs) =
     (r, 3)"
proof -
  have x: "r div 64 div 64 < 16"
    using assms(2) by linarith
  have v: "(224 + r div 64 div 64) mod 16 * 4096 + (128 + r div 64 mod 64) mod 64 * 64 +
      (128 + r mod 64) mod 64 = r"
    by (simp only: h16 [OF x] h64 digits3)
  have c: "cont (128 + r mod 64)"
    by (simp add: cont_def)
  have b: "128 \<le> 128 + r div 64 mod 64" "128 + r div 64 mod 64 \<le> 191"
    by simp_all
  have lo: "r div 64 div 64 = 0 \<Longrightarrow> 32 \<le> r div 64 mod 64"
  proof -
    assume e: "r div 64 div 64 = 0"
    have "32 \<le> r div 64"
      using assms(1) by linarith
    moreover have "r div 64 mod 64 = r div 64"
      using e div_mult_mod_eq [of "r div 64" 64] by simp
    ultimately show ?thesis by simp
  qed
  have hi: "r div 64 div 64 = 13 \<Longrightarrow> r div 64 mod 64 \<le> 31"
  proof -
    assume e: "r div 64 div 64 = 13"
    then have "0xD000 \<le> r" and "r < 0xE000" by linarith+
    with assms(3) have "r < 0xD800" by (simp add: validRune_def)
    then have "r div 64 < 864" by linarith
    moreover have "r div 64 = 13 * 64 + r div 64 mod 64"
      using e div_mult_mod_eq [of "r div 64" 64] by simp
    ultimately show ?thesis by linarith
  qed
  have a: "acceptLo (224 + r div 64 div 64) \<le> 128 + r div 64 mod 64"
    using lo b x by (auto simp: acceptLo_def)
  have h: "128 + r div 64 mod 64 \<le> acceptHi (224 + r div 64 div 64)"
    using hi b x by (auto simp: acceptHi_def)
  show ?thesis
    unfolding decodeFrom_def using x c v a h by simp
qed

lemma decode_encode4:
  assumes "0x10000 \<le> r" and "r \<le> 0x10FFFF"
  shows "decodeFrom (0xF0 + r div 64 div 64 div 64)
      ((0x80 + r div 64 div 64 mod 64) # (0x80 + r div 64 mod 64) # (0x80 + r mod 64) # bs) = (r, 4)"
proof -
  have x: "r div 64 div 64 div 64 \<le> 4"
    using assms(2) by linarith
  then have x8: "r div 64 div 64 div 64 < 8"
    by simp
  have v: "(240 + r div 64 div 64 div 64) mod 8 * 262144 +
      (128 + r div 64 div 64 mod 64) mod 64 * 4096 + (128 + r div 64 mod 64) mod 64 * 64 +
      (128 + r mod 64) mod 64 = r"
    by (simp only: h8 [OF x8] h64 digits4)
  have c: "cont (128 + r mod 64)" "cont (128 + r div 64 mod 64)"
    by (simp_all add: cont_def)
  have b: "128 \<le> 128 + r div 64 div 64 mod 64" "128 + r div 64 div 64 mod 64 \<le> 191"
    by simp_all
  have lo: "r div 64 div 64 div 64 = 0 \<Longrightarrow> 16 \<le> r div 64 div 64 mod 64"
  proof -
    assume e: "r div 64 div 64 div 64 = 0"
    have "16 \<le> r div 64 div 64"
      using assms(1) by linarith
    moreover have "r div 64 div 64 mod 64 = r div 64 div 64"
      using e div_mult_mod_eq [of "r div 64 div 64" 64] by simp
    ultimately show ?thesis by simp
  qed
  have hi: "r div 64 div 64 div 64 = 4 \<Longrightarrow> r div 64 div 64 mod 64 \<le> 15"
  proof -
    assume e: "r div 64 div 64 div 64 = 4"
    have "r div 64 div 64 \<le> 271"
      using assms(2) by linarith
    moreover have "r div 64 div 64 = 4 * 64 + r div 64 div 64 mod 64"
      using e div_mult_mod_eq [of "r div 64 div 64" 64] by simp
    ultimately show ?thesis by linarith
  qed
  have a: "acceptLo (240 + r div 64 div 64 div 64) \<le> 128 + r div 64 div 64 mod 64"
    using lo b x by (auto simp: acceptLo_def)
  have h: "128 + r div 64 div 64 mod 64 \<le> acceptHi (240 + r div 64 div 64 div 64)"
    using hi b x by (auto simp: acceptHi_def)
  show ?thesis
    unfolding decodeFrom_def using x c v a h by simp
qed

subsection \<open>Decoding what was encoded\<close>

lemma encodeBytes_digits:
  "encodeBytes r =
     (if r < 0x80 then [r]
      else if r < 0x800 then [0xC0 + r div 64, 0x80 + r mod 64]
      else if \<not> validRune r then [0xEF, 0xBF, 0xBD]
      else if r < 0x10000 then
        [0xE0 + r div 64 div 64, 0x80 + r div 64 mod 64, 0x80 + r mod 64]
      else [0xF0 + r div 64 div 64 div 64, 0x80 + r div 64 div 64 mod 64,
            0x80 + r div 64 mod 64, 0x80 + r mod 64])"
  unfolding encodeBytes_def d4096 d262144 ..

lemma decodeBytes_encode:
  assumes "validRune r"
  shows "decodeBytes (encodeBytes r @ bs) = (r, length (encodeBytes r))"
proof -
  consider "r < 0x80" | "0x80 \<le> r" "r < 0x800" | "0x800 \<le> r" "r < 0x10000"
    | "0x10000 \<le> r"
    by linarith
  then show ?thesis
  proof cases
    case 1
    then show ?thesis
      by (simp add: encodeBytes_digits decodeBytes_def decodeFrom_def)
  next
    case 2
    then show ?thesis
      using decode_encode2 [of r bs] by (simp add: encodeBytes_digits decodeBytes_def)
  next
    case 3
    then show ?thesis
      using decode_encode3 [of r bs] assms by (simp add: encodeBytes_digits decodeBytes_def)
  next
    case 4
    with assms have "r \<le> 0x10FFFF" by (simp add: validRune_def)
    with 4 show ?thesis
      using decode_encode4 [of r bs] assms by (simp add: encodeBytes_digits decodeBytes_def)
  qed
qed

lemma encodeBytes_small: "r < 0x80 \<Longrightarrow> encodeBytes r = [r]"
  by (simp add: encodeBytes_def)

lemma encodeBytes_high: "0x80 \<le> r \<Longrightarrow> b \<in> set (encodeBytes r) \<Longrightarrow> 0x80 \<le> b"
  by (auto simp: encodeBytes_def split: if_splits)

lemma encodeBytes_byte: "b \<in> set (encodeBytes r) \<Longrightarrow> b < 256"
proof -
  assume b: "b \<in> set (encodeBytes r)"
  have m: "x mod 64 < 64" for x :: nat by simp
  have 2: "r < 0x800 \<Longrightarrow> r div 64 < 32" by linarith
  have 3: "r < 0x10000 \<Longrightarrow> r div 64 div 64 < 16" by linarith
  have 4: "validRune r \<Longrightarrow> r div 64 div 64 div 64 \<le> 4"
    unfolding validRune_def by linarith
  from b show ?thesis
    unfolding encodeBytes_digits
    using m [of r] m [of "r div 64"] m [of "r div 64 div 64"] 2 3 4
    by (auto split: if_splits)
qed

lemma encodeBytes_nonempty: "encodeBytes r \<noteq> []"
  by (simp add: encodeBytes_def)

lemma cont_mod: "cont b \<Longrightarrow> b mod 64 = b - 128"
proof -
  assume "cont b"
  then have b: "128 \<le> b" "b - 128 < 64" by (auto simp: cont_def)
  have "(64 * 2 + (b - 128)) mod 64 = (b - 128) mod 64" by (rule mod_mult_self4)
  with b show ?thesis by simp
qed

lemma validRune_RuneError: "validRune RuneError"
  by (simp add: validRune_def RuneError_def)

lemma valid2: "p0 < 0xE0 \<Longrightarrow> validRune (p0 mod 32 * 64 + b1 mod 64)"
proof -
  have "p0 mod 32 < 32" "b1 mod 64 < 64" by simp_all
  then have "p0 mod 32 * 64 + b1 mod 64 < 0xD800" by linarith
  then show ?thesis by (simp add: validRune_def)
qed

lemma valid3:
  assumes "0xE0 \<le> p0" and "p0 < 0xF0" and "acceptLo p0 \<le> b1" and "b1 \<le> acceptHi p0"
  shows "validRune (p0 mod 16 * 4096 + b1 mod 64 * 64 + b2 mod 64)"
proof -
  have p: "p0 mod 16 = p0 - 224"
    using h16 [of "p0 - 224"] assms(1,2) by simp
  have m: "b1 mod 64 < 64" "b2 mod 64 < 64" by simp_all
  consider "p0 < 0xED" | "p0 = 0xED" | "0xED < p0" by linarith
  then show ?thesis
  proof cases
    case 1
    with p m assms(1) have "p0 mod 16 * 4096 + b1 mod 64 * 64 + b2 mod 64 < 0xD800" by linarith
    then show ?thesis by (simp add: validRune_def)
  next
    case 2
    with assms(3,4) have "cont b1" "b1 \<le> 0x9F" by (simp_all add: acceptLo_def acceptHi_def cont_def)
    then have "b1 mod 64 \<le> 31" using cont_mod [of b1] by simp
    with 2 p m have "p0 mod 16 * 4096 + b1 mod 64 * 64 + b2 mod 64 < 0xD800" by linarith
    then show ?thesis by (simp add: validRune_def)
  next
    case 3
    with p m assms(2) have "0xDFFF < p0 mod 16 * 4096 + b1 mod 64 * 64 + b2 mod 64"
      "p0 mod 16 * 4096 + b1 mod 64 * 64 + b2 mod 64 \<le> 0x10FFFF" by linarith+
    then show ?thesis by (simp add: validRune_def)
  qed
qed

lemma valid4:
  assumes "0xF0 \<le> p0" and "p0 \<le> 0xF4" and "acceptLo p0 \<le> b1" and "b1 \<le> acceptHi p0"
  shows "validRune (p0 mod 8 * 262144 + b1 mod 64 * 4096 + b2 mod 64 * 64 + b3 mod 64)"
proof -
  have p: "p0 mod 8 = p0 - 240"
    using h8 [of "p0 - 240"] assms(1,2) by simp
  have m: "b1 mod 64 < 64" "b2 mod 64 < 64" "b3 mod 64 < 64" by simp_all
  have lo: "0xDFFF < p0 mod 8 * 262144 + b1 mod 64 * 4096 + b2 mod 64 * 64 + b3 mod 64"
  proof (cases "p0 = 0xF0")
    case True
    with assms(3,4) have "cont b1" "0x90 \<le> b1" by (simp_all add: acceptLo_def acceptHi_def cont_def)
    then have "16 \<le> b1 mod 64" using cont_mod [of b1] by simp
    then show ?thesis by linarith
  next
    case False
    with assms(1) p have "1 \<le> p0 mod 8" by simp
    then show ?thesis by linarith
  qed
  have hi: "p0 mod 8 * 262144 + b1 mod 64 * 4096 + b2 mod 64 * 64 + b3 mod 64 \<le> 0x10FFFF"
  proof (cases "p0 = 0xF4")
    case True
    with assms(3,4) have "cont b1" "b1 \<le> 0x8F" by (simp_all add: acceptLo_def acceptHi_def cont_def)
    then have "b1 mod 64 \<le> 15" using cont_mod [of b1] by simp
    with True p m show ?thesis by linarith
  next
    case False
    with assms(2) p have "p0 mod 8 \<le> 3" by simp
    with m show ?thesis by linarith
  qed
  from lo hi show ?thesis by (simp add: validRune_def)
qed

lemma decodeFrom_valid: "validRune (fst (decodeFrom p0 ps))"
proof -
  consider "p0 < 0x80" | "0x80 \<le> p0" "p0 < 0xC2 \<or> 0xF4 < p0" | "0xC2 \<le> p0" "p0 < 0xE0"
    | "0xE0 \<le> p0" "p0 < 0xF0" | "0xF0 \<le> p0" "p0 \<le> 0xF4"
    by linarith
  then show ?thesis
  proof cases
    case 1
    then show ?thesis by (simp add: decodeFrom_def validRune_def)
  next
    case 2
    then show ?thesis by (auto simp: decodeFrom_def validRune_RuneError)
  next
    case 3
    then show ?thesis
      by (auto simp: decodeFrom_def validRune_RuneError valid2 split: list.splits)
  next
    case 4
    then show ?thesis
      by (auto simp: decodeFrom_def validRune_RuneError valid3 split: list.splits)
  next
    case 5
    then show ?thesis
      by (auto simp: decodeFrom_def validRune_RuneError valid4 split: list.splits)
  qed
qed

subsection \<open>Strings of encoded code points\<close>

lemma encAll_Nil: "encAll [] = []"
  by (simp add: encAll_def)

lemma encAll_Cons: "encAll (r # rs) = EncodeRune r @ encAll rs"
  by (simp add: encAll_def)

lemma encAll_append: "encAll (rs @ rs') = encAll rs @ encAll rs'"
  by (simp add: encAll_def)

lemma EncodeRune_small: "r < 0x80 \<Longrightarrow> EncodeRune r = [char_of r]"
  by (simp add: EncodeRune_def encodeBytes_small)

lemma EncodeRune_high:
  assumes "0x80 \<le> r" and "c \<in> set (EncodeRune r)"
  shows "(0x80::nat) \<le> of_char c"
proof -
  from assms(2) obtain b where b: "b \<in> set (encodeBytes r)" and c: "c = char_of b"
    by (auto simp: EncodeRune_def)
  from b have "b < 256" by (rule encodeBytes_byte)
  then have "of_char c = b" using c by simp
  with encodeBytes_high [OF assms(1) b] show ?thesis by simp
qed

lemma EncodeRune_nonempty: "EncodeRune r \<noteq> []"
  by (simp add: EncodeRune_def encodeBytes_nonempty)

lemma of_char_EncodeRune: "map of_char (EncodeRune r) = encodeBytes r"
proof -
  have "map (of_char \<circ> char_of) (encodeBytes r) = map id (encodeBytes r)"
  proof (rule map_cong [OF refl])
    fix b assume "b \<in> set (encodeBytes r)"
    then have "b < 256" by (rule encodeBytes_byte)
    then show "(of_char \<circ> char_of) b = id b" by simp
  qed
  then show ?thesis by (simp add: EncodeRune_def)
qed

lemma DecodeRune_EncodeRune:
  assumes "validRune r"
  shows "DecodeRune (EncodeRune r @ s) = (r, length (EncodeRune r))"
proof -
  have "DecodeRune (EncodeRune r @ s) = decodeBytes (map of_char (EncodeRune r) @ map of_char s)"
    by (simp add: DecodeRune_def)
  also have "\<dots> = (r, length (encodeBytes r))"
    unfolding of_char_EncodeRune by (rule decodeBytes_encode [OF assms])
  also have "length (encodeBytes r) = length (EncodeRune r)"
    by (simp add: EncodeRune_def)
  finally show ?thesis .
qed

lemma runesOf_EncodeRune:
  assumes "validRune r"
  shows "runesOf (EncodeRune r @ s) = r # runesOf s"
proof -
  obtain c cs where e: "EncodeRune r = c # cs"
    using EncodeRune_nonempty [of r] by (cases "EncodeRune r") auto
  have d: "DecodeRune (c # cs @ s) = (r, Suc (length cs))"
    using DecodeRune_EncodeRune [OF assms, of s] e by simp
  show ?thesis
    unfolding e append_Cons runesOf.simps d by simp
qed

lemma runesOf_encAll: "\<forall>r \<in> set rs. validRune r \<Longrightarrow> runesOf (encAll rs) = rs"
  by (induction rs) (simp_all add: encAll_Nil encAll_Cons runesOf_EncodeRune)

lemma DecodeRune_valid: "validRune (fst (DecodeRune (c # cs)))"
  by (simp add: DecodeRune_def decodeBytes_def decodeFrom_valid)

lemma runesOf_valid: "r \<in> set (runesOf s) \<Longrightarrow> validRune r"
proof (induction s arbitrary: r rule: runesOf.induct)
  case 1
  then show ?case by simp
next
  case (2 c cs)
  then show ?case
    using DecodeRune_valid [of c cs] by auto
qed

subsection \<open>Lowercasing gives encoded code points that lowercasing leaves alone\<close>

lemma lowerByte_ascii:
  assumes "of_char c < (0x80::nat)"
  shows "of_char (lowerByte c) < (0x80::nat)" and "lowerFixed tbl (of_char (lowerByte c))"
    and "EncodeRune (of_char (lowerByte c)) = [lowerByte c]"
proof -
  show l: "of_char (lowerByte c) < (0x80::nat)"
    using assms by (simp add: lowerByte_def)
  show "lowerFixed tbl (of_char (lowerByte c))"
    using l by (auto simp: lowerFixed_def validRune_def unicode_ToLower_def lowerByte_def)
  show "EncodeRune (of_char (lowerByte c)) = [lowerByte c]"
    using l by (simp add: EncodeRune_small)
qed

lemma map_lowerByte_encAll:
  assumes "\<forall>c \<in> set s. of_char c < (0x80::nat)"
  shows "map lowerByte s = encAll (map (\<lambda>c. of_char (lowerByte c)) s)"
  using assms by (induction s) (simp_all add: encAll_Nil encAll_Cons lowerByte_ascii(3))

lemma ToLower_encAll:
  assumes valid: "\<And>r. validRune r \<Longrightarrow> validRune (unicode_ToLower tbl r)"
    and idem: "\<And>r. validRune r \<Longrightarrow>
      unicode_ToLower tbl (unicode_ToLower tbl r) = unicode_ToLower tbl r"
  shows "\<exists>rs. ToLower tbl s = encAll rs \<and> (\<forall>r \<in> set rs. lowerFixed tbl r)"
proof (cases "list_all (\<lambda>c. of_char c < (0x80::nat)) s")
  case True
  then have a: "\<forall>c \<in> set s. of_char c < (0x80::nat)"
    by (simp add: list_all_iff)
  have "ToLower tbl s = encAll (map (\<lambda>c. of_char (lowerByte c)) s)"
    using True map_lowerByte_encAll [OF a] by (simp add: ToLower_def)
  moreover have "\<forall>r \<in> set (map (\<lambda>c. of_char (lowerByte c)) s). lowerFixed tbl r"
    using a by (auto simp: lowerByte_ascii(2))
  ultimately show ?thesis
    by blast
next
  case False
  then have "ToLower tbl s = encAll (map (unicode_ToLower tbl) (runesOf s))"
    by (simp add: ToLower_def MapRunes_def encAll_def comp_def)
  moreover have "\<forall>r \<in> set (map (unicode_ToLower tbl) (runesOf s)). lowerFixed tbl r"
    using valid idem by (auto simp: lowerFixed_def dest: runesOf_valid)
  ultimately show ?thesis
    by blast
qed

subsection \<open>Splitting on ASCII separators keeps whole code points\<close>

lemma EncodeRune_no_separator:
  assumes "asciiOnly sep" and "0x80 \<le> r"
  shows "\<forall>c \<in> set (EncodeRune r). \<not> sep c"
proof
  fix c assume "c \<in> set (EncodeRune r)"
  from EncodeRune_high [OF assms(2) this] assms(1) show "\<not> sep c"
    by (auto simp: asciiOnly_def)
qed

lemma takeWhile_encAll:
  assumes "asciiOnly sep"
  shows "takeWhile (\<lambda>x. \<not> sep x) (encAll rs) = encAll (takeWhile (\<lambda>r. \<not> sepRune sep r) rs)"
proof (induction rs)
  case Nil
  show ?case by (simp add: encAll_Nil)
next
  case (Cons r rs)
  show ?case
  proof (cases "r < 0x80")
    case True
    then show ?thesis
      using Cons.IH by (simp add: encAll_Nil encAll_Cons EncodeRune_small sepRune_def)
  next
    case False
    then have h: "\<forall>c \<in> set (EncodeRune r). \<not> sep c"
      using EncodeRune_no_separator [OF assms, of r] by simp
    from False show ?thesis
      using Cons.IH takeWhile_append2 [of "EncodeRune r" "\<lambda>x. \<not> sep x" "encAll rs"] h
      by (simp add: encAll_Cons sepRune_def)
  qed
qed

lemma dropWhile_encAll:
  assumes "asciiOnly sep"
  shows "dropWhile (\<lambda>x. \<not> sep x) (encAll rs) = encAll (dropWhile (\<lambda>r. \<not> sepRune sep r) rs)"
proof (induction rs)
  case Nil
  show ?case by (simp add: encAll_Nil)
next
  case (Cons r rs)
  show ?case
  proof (cases "r < 0x80")
    case True
    then show ?thesis
      using Cons.IH by (simp add: encAll_Nil encAll_Cons EncodeRune_small sepRune_def)
  next
    case False
    then have h: "\<forall>c \<in> set (EncodeRune r). \<not> sep c"
      using EncodeRune_no_separator [OF assms, of r] by simp
    from False show ?thesis
      using Cons.IH dropWhile_append2 [of "EncodeRune r" "\<lambda>x. \<not> sep x" "encAll rs"] h
      by (simp add: encAll_Cons sepRune_def)
  qed
qed

lemma splitOn_skip: "sep c \<Longrightarrow> splitOn sep (c # cs) = splitOn sep cs"
  by simp

lemma splitOn_field:
  "s \<noteq> [] \<Longrightarrow> \<not> sep (hd s) \<Longrightarrow>
   splitOn sep s = takeWhile (\<lambda>x. \<not> sep x) s # splitOn sep (dropWhile (\<lambda>x. \<not> sep x) s)"
  by (cases s) simp_all

lemma splitOn_encAll:
  assumes "asciiOnly sep" and "t \<in> set (splitOn sep (encAll rs))"
  shows "\<exists>rs'. t = encAll rs' \<and> set rs' \<subseteq> set rs"
  using assms(2)
proof (induction rs rule: length_induct)
  case (1 rs)
  show ?case
  proof (cases rs)
    case Nil
    with 1(2) show ?thesis by (simp add: encAll_Nil)
  next
    case (Cons r rs0)
    show ?thesis
    proof (cases "sepRune sep r")
      case True
      then have "splitOn sep (encAll rs) = splitOn sep (encAll rs0)"
        by (simp add: Cons encAll_Cons EncodeRune_small sepRune_def)
      with 1(2) have "t \<in> set (splitOn sep (encAll rs0))"
        by simp
      with 1(1) Cons obtain rs' where "t = encAll rs'" "set rs' \<subseteq> set rs0"
        by auto
      with Cons show ?thesis
        by auto
    next
      case False
      have ne: "encAll rs \<noteq> []"
        by (simp add: Cons encAll_Cons EncodeRune_nonempty)
      have hd: "\<not> sep (hd (encAll rs))"
      proof (cases "r < 0x80")
        case True
        with False show ?thesis
          by (simp add: Cons encAll_Cons EncodeRune_small sepRune_def)
      next
        case False
        have "hd (encAll rs) \<in> set (EncodeRune r)"
          using EncodeRune_nonempty [of r] by (simp add: Cons encAll_Cons)
        from EncodeRune_high [OF _ this] False assms(1) show ?thesis
          by (auto simp: asciiOnly_def)
      qed
      let ?rest = "dropWhile (\<lambda>r. \<not> sepRune sep r) rs"
      have "splitOn sep (encAll rs) =
          encAll (takeWhile (\<lambda>r. \<not> sepRune sep r) rs) # splitOn sep (encAll ?rest)"
        unfolding splitOn_field [where sep = sep and s = "encAll rs", OF ne hd]
          takeWhile_encAll [OF assms(1)] dropWhile_encAll [OF assms(1)] ..
      with 1(2) consider "t = encAll (takeWhile (\<lambda>r. \<not> sepRune sep r) rs)"
        | "t \<in> set (splitOn sep (encAll ?rest))"
        by auto
      then show ?thesis
      proof cases
        case 1
        then show ?thesis
          using set_takeWhileD [of _ "\<lambda>r. \<not> sepRune sep r" rs] by blast
      next
        case 2
        have "length ?rest < length rs"
          using False by (simp add: Cons less_Suc_eq_le length_dropWhile_le)
        with "1.IH" 2 obtain rs' where "t = encAll rs'" "set rs' \<subseteq> set ?rest"
          by blast
        then show ?thesis
          using set_dropWhileD [of _ "\<lambda>r. \<not> sepRune sep r" rs] by blast
      qed
    qed
  qed
qed

subsection \<open>A string of such code points is lowercase\<close>

lemma encAll_lowercase:
  assumes "\<forall>r \<in> set rs. lowerFixed tbl r"
  shows "lowercase tbl (encAll rs)"
proof (cases "list_all (\<lambda>c. of_char c < (0x80::nat)) (encAll rs)")
  case True
  have "lowerByte c = c" if c: "c \<in> set (encAll rs)" for c
  proof -
    from c obtain r where r: "r \<in> set rs" and e: "c \<in> set (EncodeRune r)"
      by (auto simp: encAll_def)
    from True c have a: "of_char c < (0x80::nat)"
      by (simp add: list_all_iff)
    have s: "r < 0x80"
    proof (rule ccontr)
      assume "\<not> r < 0x80"
      then have "0x80 \<le> r" by simp
      from EncodeRune_high [OF this e] a show False by simp
    qed
    with e have "c = char_of r"
      by (simp add: EncodeRune_small)
    with s have o: "of_char c = r"
      by simp
    from assms r have "unicode_ToLower tbl r = r"
      by (simp add: lowerFixed_def)
    with s have "\<not> (0x41 \<le> r \<and> r \<le> 0x5A)"
      by (auto simp: unicode_ToLower_def split: if_splits)
    with o show ?thesis
      by (auto simp: lowerByte_def)
  qed
  then have "map lowerByte (encAll rs) = encAll rs"
    by (simp add: map_idI)
  with True show ?thesis
    by (simp add: lowercase_def ToLower_def)
next
  case False
  from assms have v: "\<forall>r \<in> set rs. validRune r"
    and f: "map (unicode_ToLower tbl) rs = rs"
    by (auto simp: lowerFixed_def intro: map_idI)
  have "MapRunes (unicode_ToLower tbl) (encAll rs) = encAll (map (unicode_ToLower tbl) rs)"
    unfolding MapRunes_def runesOf_encAll [OF v] by (simp add: encAll_def comp_def)
  with False f show ?thesis
    by (simp add: lowercase_def ToLower_def)
qed

lemma split_ToLower_lowercase:
  assumes "asciiOnly sep"
    and "\<And>r. validRune r \<Longrightarrow> validRune (unicode_ToLower tbl r)"
    and "\<And>r. validRune r \<Longrightarrow>
      unicode_ToLower tbl (unicode_ToLower tbl r) = unicode_ToLower tbl r"
    and "t \<in> set (splitOn sep (ToLower tbl s))"
  shows "lowercase tbl t"
proof -
  from ToLower_encAll [of tbl s, OF assms(2,3)] obtain rs
    where rs: "ToLower tbl s = encAll rs" "\<forall>r \<in> set rs. lowerFixed tbl r"
    by blast
  from splitOn_encAll [OF assms(1)] assms(4) rs(1) obtain rs'
    where "t = encAll rs'" "set rs' \<subseteq> set rs"
    by metis
  with rs(2) show ?thesis
    using encAll_lowercase [of rs' tbl] by blast
qed

lemma latin1Table_valid: "validRune r \<Longrightarrow> validRune (unicode_ToLower latin1Table r)"
  by (auto simp: validRune_def unicode_ToLower_def latin1Table_def)

lemma latin1Table_idem:
  "validRune r \<Longrightarrow>
   unicode_ToLower latin1Table (unicode_ToLower latin1Table r) = unicode_ToLower latin1Table r"
  by (auto simp: unicode_ToLower_def latin1Table_def)

subsection \<open>The encodings of white space\<close>

text \<open>
  The encodings of the white-space code points, computed once; the examples below are
  evaluated with this list.
\<close>

lemma spaceEncodings_nat:
  "spaceEncodings =
     map (map char_of)
       [[0x09], [0x0A], [0x0B], [0x0C], [0x0D], [0x20], [0xC2, 0x85], [0xC2, 0xA0],
        [0xE1, 0x9A, 0x80], [0xE2, 0x80, 0x80], [0xE2, 0x80, 0x81], [0xE2, 0x80, 0x82],
        [0xE2, 0x80, 0x83], [0xE2, 0x80, 0x84], [0xE2, 0x80, 0x85], [0xE2, 0x80, 0x86],
        [0xE2, 0x80, 0x87], [0xE2, 0x80, 0x88], [0xE2, 0x80, 0x89], [0xE2, 0x80, 0x8A],
        [0xE2, 0x80, 0xA8], [0xE2, 0x80, 0xA9], [0xE2, 0x80, 0xAF], [0xE2, 0x81, 0x9F],
        [0xE3, 0x80, 0x80 :: nat]]"
  by (simp add: spaceEncodings_def spaceRunes_def EncodeRune_def encodeBytes_def validRune_def)

lemma spaceEncodings_bytes:
  "spaceEncodings =
     [[CHR 0x09], [CHR 0x0A], [CHR 0x0B], [CHR 0x0C], [CHR 0x0D], [CHR 0x20],
      [CHR 0xC2, CHR 0x85], [CHR 0xC2, CHR 0xA0], [CHR 0xE1, CHR 0x9A, CHR 0x80],
      [CHR 0xE2, CHR 0x80, CHR 0x80], [CHR 0xE2, CHR 0x80, CHR 0x81],
      [CHR 0xE2, CHR 0x80, CHR 0x82], [CHR 0xE2, CHR 0x80, CHR 0x83],
      [CHR 0xE2, CHR 0x80, CHR 0x84], [CHR 0xE2, CHR 0x80, CHR 0x85],
      [CHR 0xE2, CHR 0x80, CHR 0x86], [CHR 0xE2, CHR 0x80, CHR 0x87],
      [CHR 0xE2, CHR 0x80, CHR 0x88], [CHR 0xE2, CHR 0x80, CHR 0x89],
      [CHR 0xE2, CHR 0x80, CHR 0x8A], [CHR 0xE2, CHR 0x80, CHR 0xA8],
      [CHR 0xE2, CHR 0x80, CHR 0xA9], [CHR 0xE2, CHR 0x80, CHR 0xAF],
      [CHR 0xE2, CHR 0x81, CHR 0x9F], [CHR 0xE3, CHR 0x80, CHR 0x80]]"
  unfolding spaceEncodings_nat by code_simp

declare spaceEncodings_bytes [code]

lemma dropSpaces_Nil: "dropSpaces encs [] = []"
proof -
  have "find (\<lambda>e. e \<noteq> [] \<and> take (length e) [] = e) encs = None"
    by (auto simp: find_None_iff)
  then show ?thesis
    by (simp add: dropSpaces.simps [of encs "[]"])
qed

lemma TrimSpace_Nil: "TrimSpace [] = []"
  by (simp add: TrimSpace_def dropSpaces_Nil)

lemma ToLower_Nil: "ToLower tbl [] = []"
  by (simp add: ToLower_def)

section \<open>Properties of the tokenizer\<close>

lemma prepareSearchTerms_cases:
  "prepareSearchTerms tbl q =
     (if filteredTerms tbl q = [] then [cleanedText tbl q] else filteredTerms tbl q)"
  by (simp add: prepareSearchTerms_def filteredTerms_def cleanedText_def Let_def)

lemma prepareSearchTerms_nonempty: "prepareSearchTerms tbl q \<noteq> []"
  by (simp add: prepareSearchTerms_cases)

lemma cleanedText_empty: "cleanedText tbl [] = []"
  by (simp add: cleanedText_def ToLower_Nil TrimSpace_Nil)

lemma cleanedText_the_a_of: "cleanedText tbl ''the a of'' = ''the a of''"
  by code_simp

lemma filteredTerms_empty: "filteredTerms tbl [] = []"
  by (simp add: filteredTerms_def cleanedText_empty FieldsFunc_def)

lemma filteredTerms_the_a_of: "filteredTerms tbl ''the a of'' = []"
  by code_simp

text \<open>
  C3. Whatever the input, \<open>prepareSearchTerms\<close> returns at least one term. When the
  filter keeps no token, the result is the one-element list holding the whole lowercased
  and trimmed text; so the empty text gives \<open>[""]\<close> and \<open>"the a of"\<close>, all stop words,
  gives \<open>["the a of"]\<close>.
\<close>

theorem prepareSearchTerms_never_empty:
  "prepareSearchTerms tbl q \<noteq> [] \<and>
   (filteredTerms tbl q = [] \<longrightarrow> prepareSearchTerms tbl q = [cleanedText tbl q]) \<and>
   prepareSearchTerms tbl [] = [[]] \<and>
   prepareSearchTerms tbl ''the a of'' = [''the a of'']"
  by (simp add: prepareSearchTerms_cases cleanedText_empty filteredTerms_empty
      cleanedText_the_a_of filteredTerms_the_a_of)

theorem prepareSearchTerms_never_empty_witness:
  "filteredTerms latin1Table ''The a OF '' = [] \<and>
   prepareSearchTerms latin1Table ''The a OF '' = [''the a of'']"
proof -
  have f: "filteredTerms latin1Table ''The a OF '' = []"
    by code_simp
  have c: "cleanedText latin1Table ''The a OF '' = ''the a of''"
    by code_simp
  show ?thesis
    using prepareSearchTerms_never_empty [where tbl = latin1Table and q = "''The a OF ''"] f c by simp
qed

subsection \<open>The two loops against the reference definitions\<close>

lemma fieldsLoop_splitOn:
  "fieldsLoop f cur s =
     (if cur = [] then splitOn f s
      else (rev cur @ takeWhile (\<lambda>x. \<not> f x) s) # splitOn f (dropWhile (\<lambda>x. \<not> f x) s))"
  by (induction s arbitrary: cur) auto

lemma FieldsFunc_splitOn: "FieldsFunc s f = splitOn f s"
  by (simp add: FieldsFunc_def fieldsLoop_splitOn)

lemma filterLoop_filter:
  "filterLoop xs acc = acc @ filter (\<lambda>t. \<not> length t < 2 \<and> \<not> stopWords t) xs"
  by (induction xs arbitrary: acc) auto

lemma isSeparator_five: "isSeparator = fiveSeparators"
  by (auto simp: isSeparator_def fiveSeparators_def fun_eq_iff)

lemma keptToken_loop: "keptToken = (\<lambda>t. \<not> length t < 2 \<and> \<not> stopWords t)"
  by (simp add: keptToken_def stopWords_def fun_eq_iff)

lemma filteredTerms_tokensOnFive: "filteredTerms tbl q = tokensOnFive tbl q"
  by (simp add: filteredTerms_def tokensOnFive_def cleanedText_def FieldsFunc_splitOn
      filterLoop_filter isSeparator_five keptToken_loop)

lemma set_splitOn: "t \<in> set (splitOn f s) \<Longrightarrow> set t \<subseteq> set s"
proof (induction f s arbitrary: t rule: splitOn.induct)
  case (1 sep)
  then show ?case by simp
next
  case (2 sep c cs)
  show ?case
  proof (cases "sep c")
    case True
    with 2 show ?thesis by auto
  next
    case False
    with 2 show ?thesis
      by (auto dest: set_takeWhileD set_dropWhileD)
  qed
qed

lemma fiveSeparators_ascii: "asciiOnly fiveSeparators"
  by (auto simp: asciiOnly_def fiveSeparators_def)

lemma tokensOnFive_lowercase:
  assumes "\<And>r. validRune r \<Longrightarrow> validRune (unicode_ToLower tbl r)"
    and "\<And>r. validRune r \<Longrightarrow>
      unicode_ToLower tbl (unicode_ToLower tbl r) = unicode_ToLower tbl r"
    and "t \<in> set (tokensOnFive tbl q)"
  shows "lowercase tbl t"
proof -
  from assms(3) have "t \<in> set (splitOn fiveSeparators (ToLower tbl (TrimSpace q)))"
    by (simp add: tokensOnFive_def)
  with fiveSeparators_ascii assms(1,2) show ?thesis
    by (rule split_ToLower_lowercase)
qed

text \<open>
  C6, as the code has it. When the filter keeps at least one token, \<open>prepareSearchTerms\<close>
  returns the tokens obtained by lowercasing and trimming the text, splitting it on
  space, tab, newline, comma and semicolon, and dropping the tokens shorter than two
  bytes and the stop words. Each returned term is lowercase (\<open>strings.ToLower\<close> leaves
  it as it is), is at least two bytes long and is not a stop word. For the terms to be
  lowercase the case table has to map a code point to a code point and a small letter to
  itself (lowercasing twice is lowercasing once), as the table of Unicode does.
\<close>

theorem prepareSearchTerms_tokens:
  assumes "filteredTerms tbl q \<noteq> []"
    and "\<And>r. validRune r \<Longrightarrow> validRune (unicode_ToLower tbl r)"
    and "\<And>r. validRune r \<Longrightarrow>
      unicode_ToLower tbl (unicode_ToLower tbl r) = unicode_ToLower tbl r"
  shows "prepareSearchTerms tbl q = tokensOnFive tbl q \<and>
         (\<forall>t \<in> set (prepareSearchTerms tbl q).
            lowercase tbl t \<and> 2 \<le> length t \<and> t \<notin> set stopWordList)"
proof -
  have eq: "prepareSearchTerms tbl q = tokensOnFive tbl q"
    using assms(1) by (simp add: prepareSearchTerms_cases filteredTerms_tokensOnFive)
  have "lowercase tbl t \<and> 2 \<le> length t \<and> t \<notin> set stopWordList"
    if t: "t \<in> set (tokensOnFive tbl q)" for t
  proof -
    from t have "keptToken t"
      by (simp add: tokensOnFive_def)
    moreover have "lowercase tbl t"
      using assms(2,3) t by (rule tokensOnFive_lowercase)
    ultimately show ?thesis
      by (simp add: keptToken_def)
  qed
  with eq show ?thesis
    by simp
qed

theorem prepareSearchTerms_tokens_witness:
  "filteredTerms latin1Table eclairText \<noteq> [] \<and>
   prepareSearchTerms latin1Table eclairText = [eclair, ''usb-c'', ''stand''] \<and>
   tokensOnFive latin1Table eclairText = [eclair, ''usb-c'', ''stand''] \<and>
   lowercase latin1Table eclair \<and> lowercase latin1Table ''usb-c'' \<and>
   lowercase latin1Table ''stand'' \<and> length eclair = 7"
proof -
  have f: "filteredTerms latin1Table eclairText = [eclair, ''usb-c'', ''stand'']"
    by code_simp
  then have n: "filteredTerms latin1Table eclairText \<noteq> []"
    by simp
  have p: "prepareSearchTerms latin1Table eclairText = [eclair, ''usb-c'', ''stand'']"
    using f by (simp add: prepareSearchTerms_cases)
  have l: "length eclair = 7"
    by (simp add: eclair_def)
  show ?thesis
    using prepareSearchTerms_tokens [where tbl = latin1Table and q = eclairText,
        OF n latin1Table_valid latin1Table_idem] n p l
    by simp
qed

text \<open>
  C6, as the claim words it, fails on two counts. A carriage return is white space
  (\<open>TrimSpace\<close> strips it), but it is not one of the separators, so it stays inside a
  token. And the length that the filter compares with 2 is \<open>len(term)\<close>, a number of
  bytes: a token of one character that takes two bytes is kept. For the text
  \<open>"\u00e9 laptop\r\nstand"\<close> the code returns \<open>"\u00e9"\<close>, \<open>"laptop\r"\<close> and
  \<open>"stand"\<close>, where splitting on white space and dropping the tokens shorter than two
  characters gives \<open>"laptop"\<close> and \<open>"stand"\<close>.
\<close>

theorem prepareSearchTerms_whitespace_counterexample:
  "filteredTerms latin1Table lineBreakText \<noteq> [] \<and>
   prepareSearchTerms latin1Table lineBreakText =
     [[CHR 0xC3, CHR 0xA9], ''laptop'' @ [CHR 0x0D], ''stand''] \<and>
   tokensOnWhitespace latin1Table lineBreakText = [''laptop'', ''stand''] \<and>
   prepareSearchTerms latin1Table lineBreakText \<noteq> tokensOnWhitespace latin1Table lineBreakText \<and>
   runesOf [CHR 0xC3, CHR 0xA9] = [0xE9] \<and>
   length (runesOf [CHR 0xC3, CHR 0xA9]) = 1 \<and>
   length [CHR 0xC3, CHR 0xA9] = 2"
proof -
  have f: "filteredTerms latin1Table lineBreakText =
      [[CHR 0xC3, CHR 0xA9], ''laptop'' @ [CHR 0x0D], ''stand'']"
    by code_simp
  have w: "tokensOnWhitespace latin1Table lineBreakText = [''laptop'', ''stand'']"
    by code_simp
  have p: "prepareSearchTerms latin1Table lineBreakText =
      [[CHR 0xC3, CHR 0xA9], ''laptop'' @ [CHR 0x0D], ''stand'']"
    using f by (simp add: prepareSearchTerms_cases)
  have r: "runesOf [CHR 0xC3, CHR 0xA9] = [0xE9]"
    by (simp add: DecodeRune_def decodeBytes_def decodeFrom_def cont_def)
  show ?thesis
    using f w p r by simp
qed

section \<open>Properties of the query builder\<close>

lemma colsLoop_searchCols:
  "colsLoop searchCols p ([], args, i) =
     ([''name ILIKE $'' @ itoa i, ''category ILIKE $'' @ itoa (i + 1)],
      args @ [ArgString p, ArgString p], i + 2)"
  by (simp add: searchCols_def)

lemma termsLoop_closed:
  "termsLoop ts (wc, args, i) =
     (wc @ termGroups i (length ts), args @ likeArgs ts, i + 2 * length ts)"
proof (induction ts arbitrary: wc args i)
  case Nil
  then show ?case by (simp add: likeArgs_def)
next
  case (Cons t ts)
  show ?case
    by (simp add: colsLoop_searchCols Cons.IH termGroup_def likeArgs_def Let_def)
qed

lemma buildQuery_closed:
  "buildQuery tbl req =
     (queryStrText (Join (Fields req) '', '') (Model req)
        (Join (termGroups 1 (length (prepareSearchTerms tbl (QueryText req)))) '' AND '')
        (orderClauseText (2 * length (prepareSearchTerms tbl (QueryText req)) + 1)
           (2 * length (prepareSearchTerms tbl (QueryText req)) + 2))
        (2 * length (prepareSearchTerms tbl (QueryText req)) + 3),
      likeArgs (prepareSearchTerms tbl (QueryText req)) @
        [ArgString (''%'' @ ToLower tbl (QueryText req) @ ''%''),
         ArgString (''%'' @ ToLower tbl (QueryText req) @ ''%''),
         ArgInt (MaxResults req)])"
proof -
  let ?terms = "prepareSearchTerms tbl (QueryText req)"
  have loop: "termsLoop ?terms ([], [], 1) =
      (termGroups 1 (length ?terms), likeArgs ?terms, 1 + 2 * length ?terms)"
    using termsLoop_closed [of ?terms "[]" "[]" 1] by simp
  have "0 < length ?terms"
    by (simp add: prepareSearchTerms_nonempty)
  then have groups: "0 < length (termGroups 1 (length ?terms))"
    by (cases "length ?terms") auto
  show ?thesis
    unfolding buildQuery_def Let_def loop prod.case using groups
    by (simp add: numeral_3_eq_3)
qed

lemma allowedSetLoop_iff: "allowedSetLoop cols m f \<longleftrightarrow> f \<in> set cols \<or> m f"
  by (induction cols arbitrary: m) auto

lemma fieldsCheck_None: "fieldsCheck m fs = None \<longleftrightarrow> (\<forall>f \<in> set fs. m f)"
  by (induction fs) auto

lemma fieldsCheck_Some:
  "fieldsCheck m fs = Some f \<longleftrightarrow> (\<exists>pre post. fs = pre @ f # post \<and> (\<forall>g \<in> set pre. m g) \<and> \<not> m f)"
proof (induction fs)
  case Nil
  then show ?case by simp
next
  case (Cons a fs)
  show ?case
  proof (cases "m a")
    case True
    have "(\<exists>pre post. a # fs = pre @ f # post \<and> (\<forall>g\<in>set pre. m g) \<and> \<not> m f) \<longleftrightarrow>
          (\<exists>pre post. fs = pre @ f # post \<and> (\<forall>g\<in>set pre. m g) \<and> \<not> m f)" (is "?L \<longleftrightarrow> ?R")
    proof
      assume ?L
      then obtain pre post where p: "a # fs = pre @ f # post" "\<forall>g\<in>set pre. m g" "\<not> m f" by blast
      with True obtain pre' where "pre = a # pre'" by (cases pre) auto
      with p show ?R by auto
    next
      assume ?R
      then obtain pre post where "fs = pre @ f # post" "\<forall>g\<in>set pre. m g" "\<not> m f" by blast
      with True have "a # fs = (a # pre) @ f # post \<and> (\<forall>g\<in>set (a # pre). m g) \<and> \<not> m f" by simp
      then show ?L by blast
    qed
    with True Cons show ?thesis by simp
  next
    case False
    have "(\<exists>pre post. a # fs = pre @ f # post \<and> (\<forall>g\<in>set pre. m g) \<and> \<not> m f) \<longleftrightarrow> a = f" (is "?L \<longleftrightarrow> _")
    proof
      assume ?L
      then obtain pre post where p: "a # fs = pre @ f # post" "\<forall>g\<in>set pre. m g" "\<not> m f" by blast
      with False show "a = f" by (cases pre) auto
    next
      assume "a = f"
      with False have "a # fs = [] @ f # fs \<and> (\<forall>g\<in>set []. m g) \<and> \<not> m f" by simp
      then show ?L by blast
    qed
    with False show ?thesis by auto
  qed
qed

lemma clamp_fields [simp]:
  "Model (clampMaxResults req) = Model req"
  "Fields (clampMaxResults req) = Fields req"
  "QueryText (clampMaxResults req) = QueryText req"
  by (simp_all add: clampMaxResults_def)

lemma clamp_MaxResults:
  "MaxResults (clampMaxResults req) =
     (if MaxResults req \<le> 0 \<or> MaxResults req > 100 then 10 else MaxResults req)"
  by (simp add: clampMaxResults_def)

lemma fieldsCheck_allowed:
  "fieldsCheck (allowedSetLoop cols (\<lambda>f. False)) fs = None \<longleftrightarrow> set fs \<subseteq> set cols"
  by (auto simp: fieldsCheck_None allowedSetLoop_iff)

lemma handler_rejects_or_queries:
  "snd (MakeQueryHandler tbl db allowed r) = [] \<or>
   (\<exists>req0 cols. Method r = ''POST'' \<and> Body r = Some req0 \<and> Model req0 \<noteq> [] \<and>
      Fields req0 \<noteq> [] \<and> QueryText req0 \<noteq> [] \<and> allowed (Model req0) = Some cols \<and>
      set (Fields req0) \<subseteq> set cols \<and>
      MakeQueryHandler tbl db allowed r =
        (respond (db (fst (buildQuery tbl (clampMaxResults req0)))
                     (snd (buildQuery tbl (clampMaxResults req0)))),
         [buildQuery tbl (clampMaxResults req0)]))"
proof (cases "Method r = ''POST''")
  case False
  then show ?thesis by (simp add: MakeQueryHandler_def)
next
  case post: True
  show ?thesis
  proof (cases "Body r")
    case None
    with post show ?thesis by (simp add: MakeQueryHandler_def)
  next
    case (Some req0)
    show ?thesis
    proof (cases "Model req0 = [] \<or> Fields req0 = [] \<or> QueryText req0 = []")
      case True
      with post Some show ?thesis by (auto simp: MakeQueryHandler_def)
    next
      case present: False
      show ?thesis
      proof (cases "allowed (Model req0)")
        case None
        with post Some present show ?thesis by (simp add: MakeQueryHandler_def Let_def)
      next
        case (Some cols)
        show ?thesis
        proof (cases "set (Fields req0) \<subseteq> set cols")
          case True
          then have "fieldsCheck (allowedSetLoop cols (\<lambda>f. False)) (Fields req0) = None"
            by (simp add: fieldsCheck_allowed)
          with post \<open>Body r = Some req0\<close> present Some True show ?thesis
            by (simp add: MakeQueryHandler_def Let_def split: prod.split)
        next
          case False
          then have "fieldsCheck (allowedSetLoop cols (\<lambda>f. False)) (Fields req0) \<noteq> None"
            by (simp add: fieldsCheck_allowed)
          then obtain f where "fieldsCheck (allowedSetLoop cols (\<lambda>f. False)) (Fields req0) = Some f"
            by auto
          with post \<open>Body r = Some req0\<close> present Some show ?thesis
            by (simp add: MakeQueryHandler_def Let_def)
        qed
      qed
    qed
  qed
qed

lemma handler_query:
  assumes "c \<in> set (snd (MakeQueryHandler tbl db allowed r))" and "Body r = Some req"
  shows "c = buildQuery tbl (clampMaxResults req) \<and> Method r = ''POST'' \<and> Model req \<noteq> [] \<and>
     Fields req \<noteq> [] \<and> QueryText req \<noteq> [] \<and>
     (\<exists>cols. allowed (Model req) = Some cols \<and> set (Fields req) \<subseteq> set cols)"
  using handler_rejects_or_queries [where tbl = tbl and db = db and allowed = allowed and r = r] assms by auto

lemma rowsLoop_closed:
  "ScanFails \<notin> set scans \<Longrightarrow>
   rowsLoop cols scans acc =
     Some (acc @ map (\<lambda>s. case s of ScanOk vs \<Rightarrow> rowMap cols vs Map.empty | ScanFails \<Rightarrow> Map.empty) scans)"
proof (induction scans arbitrary: acc)
  case Nil
  then show ?case by simp
next
  case (Cons s scans)
  then show ?case by (cases s) auto
qed

lemma digitByte_props:
  assumes "d < 10"
  shows "isDigit (digitByte d)" and "digitValue (digitByte d) = d" and "digitByte d \<noteq> CHR ''$''"
proof -
  from assms consider "d = 0" | "d = 1" | "d = 2" | "d = 3" | "d = 4" | "d = 5" | "d = 6"
    | "d = 7" | "d = 8" | "d = 9"
    by atomize_elim arith
  then have "isDigit (digitByte d) \<and> digitValue (digitByte d) = d \<and> digitByte d \<noteq> CHR ''$''"
    by cases (simp_all add: digitByte_def isDigit_def digitValue_def)
  then show "isDigit (digitByte d)" and "digitValue (digitByte d) = d" and "digitByte d \<noteq> CHR ''$''"
    by simp_all
qed

lemma itoa_digits: "c \<in> set (itoa n) \<Longrightarrow> isDigit c"
proof (induction n arbitrary: c rule: itoa.induct)
  case (1 n)
  show ?case
  proof (cases "n < 10")
    case True
    with "1.prems" show ?thesis
      by (simp add: itoa.simps [of n] digitByte_props)
  next
    case False
    with "1.prems" "1.IH" show ?thesis
      by (auto simp: itoa.simps [of n] digitByte_props)
  qed
qed

lemma itoa_nonempty: "itoa n \<noteq> []"
  by (simp add: itoa.simps [of n])

lemma atoi_snoc: "atoi (ds @ [c]) = 10 * atoi ds + digitValue c"
  by (simp add: atoi_def)

lemma atoi_itoa: "atoi (itoa n) = n"
proof (induction n rule: itoa.induct)
  case (1 n)
  show ?case
  proof (cases "n < 10")
    case True
    then show ?thesis
      by (simp add: itoa.simps [of n] atoi_def digitByte_props)
  next
    case False
    with "1.IH" show ?thesis
      by (simp add: itoa.simps [of n] atoi_snoc digitByte_props)
  qed
qed

lemma isDigit_not_dollar: "isDigit c \<Longrightarrow> c \<noteq> CHR ''$''"
  by (auto simp: isDigit_def)

lemma placeholders_skip: "c \<noteq> CHR ''$'' \<Longrightarrow> placeholders (c # cs) = placeholders cs"
  by (simp add: placeholders.simps(2))

lemma placeholders_no_dollar: "CHR ''$'' \<notin> set s \<Longrightarrow> placeholders (s @ t) = placeholders t"
  by (induction s) (auto simp: placeholders_skip)

lemma placeholders_digits: "\<forall>c \<in> set s. isDigit c \<Longrightarrow> placeholders (s @ t) = placeholders t"
  by (rule placeholders_no_dollar) (auto dest: isDigit_not_dollar)

lemma takeWhile_itoa: "endsNumber t \<Longrightarrow> takeWhile isDigit (itoa n @ t) = itoa n"
  by (cases t) (auto simp: endsNumber_def takeWhile_append2 itoa_digits takeWhile_eq_all_conv)

lemma placeholders_dollar:
  "endsNumber t \<Longrightarrow> placeholders (CHR ''$'' # itoa n @ t) = n # placeholders t"
proof -
  assume e: "endsNumber t"
  have "placeholders (CHR ''$'' # itoa n @ t) = n # placeholders (itoa n @ t)"
    unfolding placeholders.simps(2) takeWhile_itoa [OF e]
    by (simp add: itoa_nonempty atoi_itoa)
  also have "placeholders (itoa n @ t) = placeholders t"
    by (rule placeholders_digits) (simp add: itoa_digits)
  finally show ?thesis .
qed

lemma endsNumber_simps [simp]:
  "endsNumber []" "endsNumber (c # cs) = (\<not> isDigit c)"
  by (simp_all add: endsNumber_def)

lemma placeholders_termGroup:
  "placeholders (termGroup i @ t) = i # (i + 1) # placeholders t"
  by (simp add: termGroup_def placeholders_skip placeholders_dollar isDigit_def)

lemma Join_Cons: "es \<noteq> [] \<Longrightarrow> Join (e # es) sep = e @ sep @ Join es sep"
  by (cases es) auto

lemma placeholders_where:
  "placeholders (Join (termGroups i n) '' AND '' @ t) = [i..<i + 2 * n] @ placeholders t"
proof (induction n arbitrary: i)
  case 0
  then show ?case by simp
next
  case (Suc n)
  show ?case
  proof (cases n)
    case 0
    then show ?thesis
      by (simp add: placeholders_termGroup upt_rec)
  next
    case (Suc m)
    then have ne: "termGroups (i + 2) n \<noteq> []" by simp
    have "placeholders (Join (termGroups i (Suc n)) '' AND '' @ t) =
        placeholders (termGroup i @ ('' AND '' @ Join (termGroups (i + 2) n) '' AND '' @ t))"
      using ne by (simp add: Join_Cons)
    also have "\<dots> = i # (i + 1) # placeholders ('' AND '' @ Join (termGroups (i + 2) n) '' AND '' @ t)"
      by (rule placeholders_termGroup)
    also have "placeholders ('' AND '' @ Join (termGroups (i + 2) n) '' AND '' @ t) =
        placeholders (Join (termGroups (i + 2) n) '' AND '' @ t)"
      by (rule placeholders_no_dollar) simp
    also have "\<dots> = [i + 2..<i + 2 + 2 * n] @ placeholders t"
      by (rule Suc.IH)
    finally show ?thesis
      by (simp add: upt_rec [of i] upt_rec [of "Suc i"])
  qed
qed

lemma placeholders_order:
  "placeholders (orderClauseText i j @ t) = i # j # placeholders t"
  by (simp add: orderClauseText_def placeholders_skip placeholders_dollar isDigit_def)

lemma Join_no_dollar:
  "\<forall>e \<in> set es. CHR ''$'' \<notin> set e \<Longrightarrow> CHR ''$'' \<notin> set sep \<Longrightarrow> CHR ''$'' \<notin> set (Join es sep)"
  by (induction es sep rule: Join.induct) auto

lemma placeholders_assembled:
  assumes "CHR ''$'' \<notin> set h" and "CHR ''$'' \<notin> set m" and "placeholders t = [l]"
  shows "placeholders (h @ Join (termGroups i n) '' AND '' @ m @ orderClauseText a b @ t) =
     [i..<i + 2 * n] @ [a, b, l]"
proof -
  have "placeholders (h @ Join (termGroups i n) '' AND '' @ m @ orderClauseText a b @ t) =
      placeholders (Join (termGroups i n) '' AND '' @ m @ orderClauseText a b @ t)"
    using assms(1) by (rule placeholders_no_dollar)
  also have "\<dots> = [i..<i + 2 * n] @ placeholders (m @ orderClauseText a b @ t)"
    by (rule placeholders_where)
  also have "placeholders (m @ orderClauseText a b @ t) = placeholders (orderClauseText a b @ t)"
    using assms(2) by (rule placeholders_no_dollar)
  also have "\<dots> = a # b # placeholders t"
    by (rule placeholders_order)
  finally show ?thesis
    by (simp only: assms(3) append.simps)
qed

lemma upt_three: "[i..<i + 2 * n] @ [i + 2 * n, i + 2 * n + 1, i + 2 * n + 2] = [i..<i + 2 * n + 3]"
proof -
  have "[i..<i + 2 * n + 3] = [i..<i + 2 * n] @ [i + 2 * n..<i + 2 * n + 3]"
    using upt_add_eq_append [of i "i + 2 * n" 3] by simp
  also have "[i + 2 * n..<i + 2 * n + 3] = [i + 2 * n, i + 2 * n + 1, i + 2 * n + 2]"
    by (simp add: upt_rec numeral_3_eq_3)
  finally show ?thesis by simp
qed

lemma queryStrText_parts:
  "queryStrText selectCols model w oc l =
     (''\<newline>            SELECT '' @ selectCols @ ''\<newline>              FROM '' @ model @
        ''\<newline>             WHERE '') @
     w @ ''\<newline>          ORDER BY '' @ oc @
     (''\<newline>             LIMIT $'' @ itoa l @ ''\<newline>        '')"
  by (simp add: queryStrText_def)

lemma placeholders_queryStr:
  assumes "CHR ''$'' \<notin> set selectCols" and "CHR ''$'' \<notin> set model"
  shows "placeholders
      (queryStrText selectCols model (Join (termGroups 1 n) '' AND '')
         (orderClauseText (2 * n + 1) (2 * n + 2)) (2 * n + 3)) = [1..<2 * n + 4]"
proof -
  have h: "CHR ''$'' \<notin> set (''\<newline>            SELECT '' @ selectCols @
      ''\<newline>              FROM '' @ model @ ''\<newline>             WHERE '')"
    using assms by simp
  have m: "CHR ''$'' \<notin> set ''\<newline>          ORDER BY ''"
    by simp
  have t: "placeholders (''\<newline>             LIMIT $'' @ itoa (2 * n + 3) @ ''\<newline>        '') =
      [2 * n + 3]"
    by (simp add: placeholders_skip placeholders_dollar isDigit_def)
  have "placeholders
      (queryStrText selectCols model (Join (termGroups 1 n) '' AND '')
         (orderClauseText (2 * n + 1) (2 * n + 2)) (2 * n + 3)) =
      [1..<1 + 2 * n] @ [2 * n + 1, 2 * n + 2, 2 * n + 3]"
    unfolding queryStrText_parts by (rule placeholders_assembled [OF h m t])
  also have "\<dots> = [1..<2 * n + 4]"
  proof -
    have a: "[2 * n + 1, 2 * n + 2, 2 * n + 3] = [1 + 2 * n, 1 + 2 * n + 1, 1 + 2 * n + 2]"
      by (simp add: add.commute)
    have "2 * n + 4 = 1 + 2 * n + 3"
      by arith
    then have b: "[1..<2 * n + 4] = [1..<1 + 2 * n + 3]"
      by (rule arg_cong)
    show ?thesis
      by (simp only: a b upt_three)
  qed
  finally show ?thesis .
qed

lemma laptop_terms: "prepareSearchTerms tbl ''Laptop stand'' = [''laptop'', ''stand'']"
  by code_simp

lemma laptop_query: "buildQuery tbl (clampMaxResults laptopBody) = (laptopSQL, laptopArgs)"
  by code_simp

lemma laptop_result:
  "MakeQueryHandler tbl db allowedMain laptopRequest =
     (respond (db laptopSQL laptopArgs), [(laptopSQL, laptopArgs)])"
  using laptop_query
  by (simp add: MakeQueryHandler_def laptopRequest_def laptopBody_def allowedMain_def
      clampMaxResults_def Let_def)

lemma cable_result:
  "MakeQueryHandler tbl db allowedMain cableRequest =
     (respond (db laptopSQL cableArgs), [(laptopSQL, cableArgs)])"
proof -
  have "buildQuery tbl (clampMaxResults cableBody) = (laptopSQL, cableArgs)"
    by code_simp
  then show ?thesis
    by (simp add: MakeQueryHandler_def cableRequest_def cableBody_def allowedMain_def
        clampMaxResults_def Let_def)
qed

lemma allowedMain_dollarFree:
  "\<forall>m cols. allowedMain m = Some cols \<longrightarrow> dollarFree m \<and> (\<forall>c \<in> set cols. dollarFree c)"
  by (auto simp: allowedMain_def dollarFree_def split: if_splits)

lemma fieldsCheck_first:
  assumes "\<not> set fs \<subseteq> set cols"
  shows "\<exists>pre f post. fs = pre @ f # post \<and> set pre \<subseteq> set cols \<and> f \<notin> set cols \<and>
           fieldsCheck (allowedSetLoop cols (\<lambda>f. False)) fs = Some f"
proof -
  from assms have "fieldsCheck (allowedSetLoop cols (\<lambda>f. False)) fs \<noteq> None"
    by (simp add: fieldsCheck_allowed)
  then obtain f where f: "fieldsCheck (allowedSetLoop cols (\<lambda>f. False)) fs = Some f"
    by auto
  then obtain pre post where "fs = pre @ f # post"
    "\<forall>g \<in> set pre. allowedSetLoop cols (\<lambda>f. False) g" "\<not> allowedSetLoop cols (\<lambda>f. False) f"
    unfolding fieldsCheck_Some by blast
  then have "fs = pre @ f # post \<and> set pre \<subseteq> set cols \<and> f \<notin> set cols"
    by (auto simp: allowedSetLoop_iff)
  with f show ?thesis by blast
qed

lemma recordOf_case:
  "recordOf cols = (\<lambda>s. case s of ScanOk vs \<Rightarrow> rowMap cols vs Map.empty | ScanFails \<Rightarrow> Map.empty)"
  by (simp add: recordOf_def fun_eq_iff)

lemma rowsLoop_recordOf:
  "ScanFails \<notin> set scans \<Longrightarrow> rowsLoop cols scans [] = Some (map (recordOf cols) scans)"
  by (simp add: rowsLoop_closed recordOf_case)

subsection \<open>The generic handler\<close>

lemma clampG_fields [simp]:
  "ModelG (clampMaxResultsG req) = ModelG req"
  "FieldsG (clampMaxResultsG req) = FieldsG req"
  "QueryTextG (clampMaxResultsG req) = QueryTextG req"
  by (simp_all add: clampMaxResultsG_def)

lemma clampG_MaxResults:
  "MaxResultsG (clampMaxResultsG req) =
     (if MaxResultsG req \<le> 0 \<or> MaxResultsG req > 100 then 10 else MaxResultsG req)"
  by (simp add: clampMaxResultsG_def)

lemma generic_rejects_or_queries:
  "snd (MakeQueryHandlerG db allowed r) = [] \<or>
   (\<exists>req cols. Method r = ''POST'' \<and> Body r = Some req \<and> allowed (ModelG req) = Some cols \<and>
      validateLoop (FieldsG req) cols [] \<noteq> [] \<and> QueryTextG req \<noteq> [] \<and>
      MakeQueryHandlerG db allowed r =
        (respondG (db (fst (queryG req cols)) (snd (queryG req cols))), [queryG req cols]))"
proof (cases "Method r = ''POST''")
  case False
  then show ?thesis by (simp add: MakeQueryHandlerG_def)
next
  case post: True
  show ?thesis
  proof (cases "Body r")
    case None
    with post show ?thesis by (simp add: MakeQueryHandlerG_def)
  next
    case (Some req)
    show ?thesis
    proof (cases "allowed (ModelG req)")
      case None
      with post Some show ?thesis by (simp add: MakeQueryHandlerG_def)
    next
      case cols: (Some cols)
      show ?thesis
      proof (cases "validateLoop (FieldsG req) cols [] = [] \<or> QueryTextG req = []")
        case True
        with post Some cols show ?thesis by (auto simp: MakeQueryHandlerG_def Let_def)
      next
        case False
        with post Some cols show ?thesis
          by (simp add: MakeQueryHandlerG_def Let_def queryG_def)
      qed
    qed
  qed
qed

lemma generic_query:
  assumes "c \<in> set (snd (MakeQueryHandlerG db allowed r))" and "Body r = Some req"
  shows "\<exists>cols. allowed (ModelG req) = Some cols \<and> c = queryG req cols"
  using generic_rejects_or_queries [of db allowed r] assms by auto

lemma user_result:
  "MakeQueryHandlerG db allowedMain userRequest =
     (respondG (db userSQL [ArgString ''stand'', ArgInt 50]),
      [(userSQL, [ArgString ''stand'', ArgInt 50])])"
  by (simp add: MakeQueryHandlerG_def userRequest_def userBody_def allowedMain_def userSQL_def
      clampMaxResultsG_def Let_def)

lemma matchLoop_set: "set (matchLoop f cols acc) = set acc \<union> ({f} \<inter> set cols)"
  by (induction cols arbitrary: acc) auto

lemma validateLoop_set:
  "set (validateLoop fs cols acc) = set acc \<union> (set fs \<inter> set cols)"
  by (induction fs arbitrary: acc) (auto simp: matchLoop_set)

lemma generic_statement:
  assumes "(sql, args) \<in> set (snd (MakeQueryHandlerG db allowed r))" and "Body r = Some req"
  shows "\<exists>cols. allowed (ModelG req) = Some cols \<and>
           set (validateLoop (FieldsG req) cols []) \<subseteq> set cols \<and>
           sql = ''SELECT * FROM '' @ ModelG req @ '' WHERE '' @
             Join (clausesLoop (validateLoop (FieldsG req) cols []) []) '' OR '' @ '' LIMIT $2''"
proof -
  from generic_query [OF assms] obtain cols
    where "allowed (ModelG req) = Some cols" and "(sql, args) = queryG req cols"
    by blast
  then show ?thesis
    by (auto simp: queryG_def validateLoop_set)
qed

subsection \<open>The patterns and the groups by position\<close>

lemma likeArgs_length: "length (likeArgs ts) = 2 * length ts"
  by (induction ts) (simp_all add: likeArgs_def)



lemma termGroups_length: "length (termGroups i n) = n"
  by (induction n arbitrary: i) simp_all

section \<open>The statement that the ranking handler sends\<close>





section \<open>The limit\<close>

text \<open>
  C8. In both handlers, for every request that reaches the database, the last argument,
  the one that the \<open>LIMIT\<close> placeholder of the statement refers to, is 10 when the
  \<open>maxResults\<close> of the request is at most 0 or more than 100, and is the \<open>maxResults\<close> of the
  request otherwise (a \<open>maxResults\<close> absent from the body is decoded as 0). The inputs 0,
  -5, 101 and 1000 become 10 and 50 stays 50.
\<close>

theorem maxResults_clamped:
  "((sql, args) \<in> set (snd (MakeQueryHandler tbl db allowed r)) \<and> Body r = Some req \<longrightarrow>
      args \<noteq> [] \<and>
      last args = ArgInt (if MaxResults req \<le> 0 \<or> MaxResults req > 100 then 10 else MaxResults req) \<and>
      (\<exists>selectCols whereClause orderClause.
         sql = queryStrText selectCols (Model req) whereClause orderClause (length args))) \<and>
   ((sqlG, argsG) \<in> set (snd (MakeQueryHandlerG dbG allowedG rG)) \<and> Body rG = Some reqG \<longrightarrow>
      argsG = [ArgString (QueryTextG reqG),
               ArgInt (if MaxResultsG reqG \<le> 0 \<or> MaxResultsG reqG > 100 then 10
                       else MaxResultsG reqG)] \<and>
      (\<exists>pre. sqlG = pre @ '' LIMIT $2'')) \<and>
   map (\<lambda>n. MaxResults (clampMaxResults (req\<lparr>MaxResults := n\<rparr>))) [0, - 5, 101, 1000, 50] =
     [10, 10, 10, 10, 50]"
proof (intro conjI impI)
  assume a: "(sql, args) \<in> set (snd (MakeQueryHandler tbl db allowed r)) \<and> Body r = Some req"
  then have "(sql, args) = buildQuery tbl (clampMaxResults req)"
    using handler_query [where c = "(sql, args)" and tbl = tbl and db = db and allowed = allowed and r = r and req = req] by simp
  then have s: "sql = fst (buildQuery tbl (clampMaxResults req))"
    and g: "args = snd (buildQuery tbl (clampMaxResults req))"
    by (metis fst_conv, metis snd_conv)
  show "args \<noteq> []"
    by (simp add: g buildQuery_closed)
  show "last args =
      ArgInt (if MaxResults req \<le> 0 \<or> MaxResults req > 100 then 10 else MaxResults req)"
    by (simp add: g buildQuery_closed clamp_MaxResults)
  have "length args = 2 * length (prepareSearchTerms tbl (QueryText req)) + 3"
    by (simp add: g buildQuery_closed likeArgs_length)
  then show "\<exists>selectCols whereClause orderClause.
      sql = queryStrText selectCols (Model req) whereClause orderClause (length args)"
    by (simp add: s buildQuery_closed) blast
next
  assume a: "(sqlG, argsG) \<in> set (snd (MakeQueryHandlerG dbG allowedG rG)) \<and> Body rG = Some reqG"
  then obtain cols where c: "(sqlG, argsG) = queryG reqG cols"
    using generic_query [of "(sqlG, argsG)" dbG allowedG rG reqG] by auto
  then show "argsG = [ArgString (QueryTextG reqG),
      ArgInt (if MaxResultsG reqG \<le> 0 \<or> MaxResultsG reqG > 100 then 10 else MaxResultsG reqG)]"
    by (simp add: queryG_def clampG_MaxResults)
  from c show "\<exists>pre. sqlG = pre @ '' LIMIT $2''"
    by (auto simp: queryG_def)
next
  show "map (\<lambda>n. MaxResults (clampMaxResults (req\<lparr>MaxResults := n\<rparr>))) [0, - 5, 101, 1000, 50] =
     [10, 10, 10, 10, 50]"
    by (simp add: clampMaxResults_def)
qed

theorem maxResults_clamped_witness:
  "(laptopSQL, laptopArgs) \<in> set (snd (MakeQueryHandler latin1Table failingDB allowedMain laptopRequest)) \<and>
   Body laptopRequest = Some laptopBody \<and> MaxResults laptopBody = 0 \<and>
   last laptopArgs = ArgInt 10 \<and>
   (userSQL, [ArgString ''stand'', ArgInt 50]) \<in>
     set (snd (MakeQueryHandlerG failingDB allowedMain userRequest)) \<and>
   Body userRequest = Some userBody \<and> MaxResultsG userBody = 50"
proof -
  have m: "(laptopSQL, laptopArgs) \<in> set (snd (MakeQueryHandler latin1Table failingDB allowedMain laptopRequest))"
    by (simp add: laptop_result)
  have b: "Body laptopRequest = Some laptopBody"
    by (simp add: laptopRequest_def)
  have z: "MaxResults laptopBody = 0"
    by (simp add: laptopBody_def)
  have mg: "(userSQL, [ArgString ''stand'', ArgInt 50]) \<in>
      set (snd (MakeQueryHandlerG failingDB allowedMain userRequest))"
    by (simp add: user_result)
  have bg: "Body userRequest = Some userBody"
    by (simp add: userRequest_def)
  have zg: "MaxResultsG userBody = 50"
    by (simp add: userBody_def)
  note inst = maxResults_clamped [where sql = laptopSQL and args = laptopArgs
      and db = failingDB and allowed = allowedMain and r = laptopRequest and req = laptopBody
      and sqlG = userSQL and argsG = "[ArgString ''stand'', ArgInt 50]" and dbG = failingDB
      and allowedG = allowedMain and rG = userRequest and reqG = userBody]
  from inst m b have "last laptopArgs =
      ArgInt (if MaxResults laptopBody \<le> 0 \<or> MaxResults laptopBody > 100 then 10
              else MaxResults laptopBody)"
    by blast
  then have "last laptopArgs = ArgInt 10"
    by (simp add: z)
  with m b z mg bg zg show ?thesis
    by (intro conjI)
qed

section \<open>The response of a search that succeeds\<close>

text \<open>
  C9. When the statement is executed without error, every row is scanned without error
  and the iteration ends without error, the response has status 200; the ranking
  handler answers with the array of the records, one per row in the order of the rows,
  and the generic handler with the same array under \<open>results\<close> and its length under
  \<open>count\<close>. A search that matches no row is such a success, with the empty array (and
  count 0).
\<close>

theorem successful_search_response:
  "(MakeQueryHandler tbl db allowed r = (resp, [(sql, args)]) \<and>
    db sql args = QueryOk (Rows cols scans False) \<and> ScanFails \<notin> set scans \<longrightarrow>
      status resp = 200 \<and>
      payload resp = ResultsArray (map (recordOf (case cols of None \<Rightarrow> [] | Some cs \<Rightarrow> cs)) scans) \<and>
      length (map (recordOf (case cols of None \<Rightarrow> [] | Some cs \<Rightarrow> cs)) scans) = length scans) \<and>
   (MakeQueryHandlerG dbG allowedG rG = (respG, [(sqlG, argsG)]) \<and>
    dbG sqlG argsG = QueryOk (Rows (Some colsNames) scansG False) \<and> ScanFails \<notin> set scansG \<longrightarrow>
      status respG = 200 \<and>
      payload respG = ResultsCount (map (recordOf colsNames) scansG) (length scansG))"
proof (intro conjI impI)
  assume a: "MakeQueryHandler tbl db allowed r = (resp, [(sql, args)]) \<and>
    db sql args = QueryOk (Rows cols scans False) \<and> ScanFails \<notin> set scans"
  then have m: "MakeQueryHandler tbl db allowed r = (resp, [(sql, args)])"
    by simp
  then have "snd (MakeQueryHandler tbl db allowed r) \<noteq> []"
    by simp
  with handler_rejects_or_queries [where tbl = tbl and db = db and allowed = allowed and r = r]
  obtain q where "MakeQueryHandler tbl db allowed r = (respond (db (fst q) (snd q)), [q])"
    by blast
  with m have "resp = respond (db sql args)"
    by auto
  with a have resp: "resp = respond (QueryOk (Rows cols scans False))"
    by simp
  from a have ok: "ScanFails \<notin> set scans"
    by simp
  show "status resp = 200"
    by (simp add: resp respond_def rowsLoop_recordOf [OF ok])
  show "payload resp =
      ResultsArray (map (recordOf (case cols of None \<Rightarrow> [] | Some cs \<Rightarrow> cs)) scans)"
    by (simp add: resp respond_def rowsLoop_recordOf [OF ok])
  show "length (map (recordOf (case cols of None \<Rightarrow> [] | Some cs \<Rightarrow> cs)) scans) = length scans"
    by simp
next
  assume a: "MakeQueryHandlerG dbG allowedG rG = (respG, [(sqlG, argsG)]) \<and>
    dbG sqlG argsG = QueryOk (Rows (Some colsNames) scansG False) \<and> ScanFails \<notin> set scansG"
  then have m: "MakeQueryHandlerG dbG allowedG rG = (respG, [(sqlG, argsG)])"
    by simp
  then have "snd (MakeQueryHandlerG dbG allowedG rG) \<noteq> []"
    by simp
  with generic_rejects_or_queries [of dbG allowedG rG]
  obtain q where "MakeQueryHandlerG dbG allowedG rG = (respondG (dbG (fst q) (snd q)), [q])"
    by blast
  with m have "respG = respondG (dbG sqlG argsG)"
    by auto
  with a have resp: "respG = respondG (QueryOk (Rows (Some colsNames) scansG False))"
    by simp
  from a have ok: "ScanFails \<notin> set scansG"
    by simp
  show "status respG = 200"
    by (simp add: resp respondG_def rowsLoop_recordOf [OF ok])
  show "payload respG = ResultsCount (map (recordOf colsNames) scansG) (length scansG)"
    by (simp add: resp respondG_def rowsLoop_recordOf [OF ok])
qed

theorem successful_search_response_witness:
  "MakeQueryHandler latin1Table emptyDB allowedMain laptopRequest =
     (respond (emptyDB laptopSQL laptopArgs), [(laptopSQL, laptopArgs)]) \<and>
   emptyDB laptopSQL laptopArgs = QueryOk (Rows (Some [''name'', ''price_ugx'']) [] False) \<and>
   status (respond (emptyDB laptopSQL laptopArgs)) = 200 \<and>
   payload (respond (emptyDB laptopSQL laptopArgs)) = ResultsArray [] \<and>
   MakeQueryHandlerG twoRowsDB allowedMain userRequest =
     (respondG (twoRowsDB userSQL [ArgString ''stand'', ArgInt 50]),
      [(userSQL, [ArgString ''stand'', ArgInt 50])]) \<and>
   twoRowsDB userSQL [ArgString ''stand'', ArgInt 50] =
     QueryOk (Rows (Some [''name'', ''price_ugx''])
       [ScanOk [''Laptop Stand'', ''50000.00''], ScanOk [''USB Laptop Fan'', ''25000.00'']] False) \<and>
   status (respondG (twoRowsDB userSQL [ArgString ''stand'', ArgInt 50])) = 200 \<and>
   payload (respondG (twoRowsDB userSQL [ArgString ''stand'', ArgInt 50])) =
     ResultsCount
       (map (recordOf [''name'', ''price_ugx''])
          [ScanOk [''Laptop Stand'', ''50000.00''], ScanOk [''USB Laptop Fan'', ''25000.00'']]) 2 \<and>
   MakeQueryHandlerG emptyDB allowedMain userRequest =
     (respondG (emptyDB userSQL [ArgString ''stand'', ArgInt 50]),
      [(userSQL, [ArgString ''stand'', ArgInt 50])]) \<and>
   status (respondG (emptyDB userSQL [ArgString ''stand'', ArgInt 50])) = 200 \<and>
   payload (respondG (emptyDB userSQL [ArgString ''stand'', ArgInt 50])) = ResultsCount [] 0"
proof -
  have e: "emptyDB laptopSQL laptopArgs = QueryOk (Rows (Some [''name'', ''price_ugx'']) [] False)"
    by (simp add: emptyDB_def)
  have t: "twoRowsDB userSQL [ArgString ''stand'', ArgInt 50] =
     QueryOk (Rows (Some [''name'', ''price_ugx''])
       [ScanOk [''Laptop Stand'', ''50000.00''], ScanOk [''USB Laptop Fan'', ''25000.00'']] False)"
    by (simp add: twoRowsDB_def)
  have n: "ScanFails \<notin> set ([] :: string scanned list)"
    by simp
  have n2: "ScanFails \<notin>
      set [ScanOk [''Laptop Stand'', ''50000.00''], ScanOk [''USB Laptop Fan'', ''25000.00'']]"
    by simp
  note inst = successful_search_response [where db = emptyDB and allowed = allowedMain
      and r = laptopRequest and resp = "respond (emptyDB laptopSQL laptopArgs)"
      and sql = laptopSQL and args = laptopArgs and cols = "Some [''name'', ''price_ugx'']"
      and scans = "[]" and dbG = twoRowsDB and allowedG = allowedMain and rG = userRequest
      and respG = "respondG (twoRowsDB userSQL [ArgString ''stand'', ArgInt 50])"
      and sqlG = userSQL and argsG = "[ArgString ''stand'', ArgInt 50]"
      and colsNames = "[''name'', ''price_ugx'']"
      and scansG = "[ScanOk [''Laptop Stand'', ''50000.00''], ScanOk [''USB Laptop Fan'', ''25000.00'']]"]
  from inst laptop_result [where db = emptyDB and tbl = latin1Table] e n
  have 1: "status (respond (emptyDB laptopSQL laptopArgs)) = 200 \<and>
      payload (respond (emptyDB laptopSQL laptopArgs)) = ResultsArray []"
    by simp
  from inst user_result [of twoRowsDB] t n2
  have 2: "status (respondG (twoRowsDB userSQL [ArgString ''stand'', ArgInt 50])) = 200 \<and>
      payload (respondG (twoRowsDB userSQL [ArgString ''stand'', ArgInt 50])) =
        ResultsCount
          (map (recordOf [''name'', ''price_ugx''])
             [ScanOk [''Laptop Stand'', ''50000.00''], ScanOk [''USB Laptop Fan'', ''25000.00'']]) 2"
    by simp
  have eg: "emptyDB userSQL [ArgString ''stand'', ArgInt 50] =
      QueryOk (Rows (Some [''name'', ''price_ugx'']) [] False)"
    by (simp add: emptyDB_def)
  note instG = successful_search_response [where db = emptyDB and allowed = allowedMain
      and r = laptopRequest and resp = "respond (emptyDB laptopSQL laptopArgs)"
      and sql = laptopSQL and args = laptopArgs and cols = "Some [''name'', ''price_ugx'']"
      and scans = "[]" and dbG = emptyDB and allowedG = allowedMain and rG = userRequest
      and respG = "respondG (emptyDB userSQL [ArgString ''stand'', ArgInt 50])"
      and sqlG = userSQL and argsG = "[ArgString ''stand'', ArgInt 50]"
      and colsNames = "[''name'', ''price_ugx'']" and scansG = "[]"]
  from instG user_result [of emptyDB] eg n
  have 3: "status (respondG (emptyDB userSQL [ArgString ''stand'', ArgInt 50])) = 200 \<and>
      payload (respondG (emptyDB userSQL [ArgString ''stand'', ArgInt 50])) = ResultsCount [] 0"
    by simp
  from laptop_result [where db = emptyDB and tbl = latin1Table] e 1 user_result [of twoRowsDB] t 2 user_result [of emptyDB] 3
  show ?thesis
    by (intro conjI) simp_all
qed

section \<open>Values never reach the text of the statement\<close>

text \<open>
  C2. Two requests that reach the database with the same model, the same field list and
  the same number of search terms send the same statement text, whatever their query
  texts and limits are; the model is in the allow-list and the fields are columns that the
  allow-list permits for it; and the values (the pattern of each term, twice; the pattern
  of the whole query text, twice; the limit) are the positional arguments.
\<close>

theorem statement_text_independent_of_values:
  assumes "(sql1, args1) \<in> set (snd (MakeQueryHandler tbl db1 allowed r1))" and "Body r1 = Some req1"
    and "(sql2, args2) \<in> set (snd (MakeQueryHandler tbl db2 allowed r2))" and "Body r2 = Some req2"
    and "Model req1 = Model req2" and "Fields req1 = Fields req2"
    and "length (prepareSearchTerms tbl (QueryText req1)) = length (prepareSearchTerms tbl (QueryText req2))"
  shows "sql1 = sql2 \<and>
         (\<exists>cols. allowed (Model req1) = Some cols \<and> set (Fields req1) \<subseteq> set cols) \<and>
         args1 = likeArgs (prepareSearchTerms tbl (QueryText req1)) @
           [ArgString (''%'' @ ToLower tbl (QueryText req1) @ ''%''),
            ArgString (''%'' @ ToLower tbl (QueryText req1) @ ''%''),
            ArgInt (MaxResults (clampMaxResults req1))]"
proof -
  from handler_query [OF assms(1,2)]
  have q1: "(sql1, args1) = buildQuery tbl (clampMaxResults req1)"
    and v: "\<exists>cols. allowed (Model req1) = Some cols \<and> set (Fields req1) \<subseteq> set cols"
    by simp_all
  from handler_query [OF assms(3,4)]
  have q2: "(sql2, args2) = buildQuery tbl (clampMaxResults req2)"
    by simp
  from q1 have s1: "sql1 = fst (buildQuery tbl (clampMaxResults req1))"
    and a1: "args1 = snd (buildQuery tbl (clampMaxResults req1))"
    by (metis fst_conv, metis snd_conv)
  from q2 have s2: "sql2 = fst (buildQuery tbl (clampMaxResults req2))"
    by (metis fst_conv)
  have "sql1 = sql2"
    unfolding s1 s2 by (simp add: buildQuery_closed assms(5,6,7))
  moreover have "args1 = likeArgs (prepareSearchTerms tbl (QueryText req1)) @
           [ArgString (''%'' @ ToLower tbl (QueryText req1) @ ''%''),
            ArgString (''%'' @ ToLower tbl (QueryText req1) @ ''%''),
            ArgInt (MaxResults (clampMaxResults req1))]"
    unfolding a1 by (simp add: buildQuery_closed)
  ultimately show ?thesis
    using v by simp
qed

theorem statement_text_independent_of_values_witness:
  "(laptopSQL, laptopArgs) \<in> set (snd (MakeQueryHandler latin1Table failingDB allowedMain laptopRequest)) \<and>
   Body laptopRequest = Some laptopBody \<and>
   (laptopSQL, cableArgs) \<in> set (snd (MakeQueryHandler latin1Table emptyDB allowedMain cableRequest)) \<and>
   Body cableRequest = Some cableBody \<and>
   Model laptopBody = Model cableBody \<and> Fields laptopBody = Fields cableBody \<and>
   length (prepareSearchTerms latin1Table (QueryText laptopBody)) =
     length (prepareSearchTerms latin1Table (QueryText cableBody)) \<and>
   QueryText laptopBody \<noteq> QueryText cableBody \<and>
   MaxResults laptopBody \<noteq> MaxResults cableBody \<and>
   laptopArgs \<noteq> cableArgs \<and>
   allowedMain (Model laptopBody) =
     Some [''id'', ''name'', ''category'', ''price_ugx'', ''available'']"
proof -
  have m1: "(laptopSQL, laptopArgs) \<in> set (snd (MakeQueryHandler latin1Table failingDB allowedMain laptopRequest))"
    by (simp add: laptop_result)
  have b1: "Body laptopRequest = Some laptopBody"
    by (simp add: laptopRequest_def)
  have m2: "(laptopSQL, cableArgs) \<in> set (snd (MakeQueryHandler latin1Table emptyDB allowedMain cableRequest))"
    by (simp add: cable_result)
  have b2: "Body cableRequest = Some cableBody"
    by (simp add: cableRequest_def)
  have e1: "Model laptopBody = Model cableBody"
    by (simp add: laptopBody_def cableBody_def)
  have e2: "Fields laptopBody = Fields cableBody"
    by (simp add: laptopBody_def cableBody_def)
  have t2: "prepareSearchTerms latin1Table ''usb; cable'' = [''usb'', ''cable'']"
    by code_simp
  have e3: "length (prepareSearchTerms latin1Table (QueryText laptopBody)) =
      length (prepareSearchTerms latin1Table (QueryText cableBody))"
    by (simp add: laptopBody_def cableBody_def laptop_terms t2)
  have d: "QueryText laptopBody \<noteq> QueryText cableBody"
    "MaxResults laptopBody \<noteq> MaxResults cableBody" "laptopArgs \<noteq> cableArgs"
    by (simp_all add: laptopBody_def cableBody_def laptopArgs_def cableArgs_def)
  have a: "allowedMain (Model laptopBody) =
      Some [''id'', ''name'', ''category'', ''price_ugx'', ''available'']"
    by (simp add: laptopBody_def allowedMain_def)
  from statement_text_independent_of_values [OF m1 b1 m2 b2 e1 e2 e3] m1 b1 m2 b2 e1 e2 e3 d a
  show ?thesis
    by (intro conjI)
qed

section \<open>Arguments and placeholders agree\<close>

text \<open>
  C10. For every request that reaches the database in the ranking handler, with \<open>t\<close>
  search terms: the argument list has \<open>2t + 3\<close> elements (two patterns for each term, then
  the pattern of the whole text twice, then the limit); the positional parameters that
  the text refers to are \<open>$1\<close>, ..., \<open>$(2t+3)\<close>, each once and in this order; and
  \<open>whereClauses\<close> is not empty when the loop over the terms has ended, so that the branch
  \<open>whereClause = "1=1"\<close> is not taken. The names of the allow-list are taken to hold no
  \<open>$\<close>, as those of \<open>main.go\<close> do (\<open>allowedMain_dollarFree\<close>): a column named \<open>$9\<close> would
  read as a parameter.
\<close>

theorem arguments_match_placeholders:
  assumes "(sql, args) \<in> set (snd (MakeQueryHandler tbl db allowed r))" and "Body r = Some req"
    and "\<forall>m cols. allowed m = Some cols \<longrightarrow> dollarFree m \<and> (\<forall>c \<in> set cols. dollarFree c)"
    and "terms = prepareSearchTerms tbl (QueryText req)"
  shows "length args = 2 * length terms + 3 \<and>
         args = likeArgs terms @
           [ArgString (''%'' @ ToLower tbl (QueryText req) @ ''%''),
            ArgString (''%'' @ ToLower tbl (QueryText req) @ ''%''),
            ArgInt (if MaxResults req \<le> 0 \<or> MaxResults req > 100 then 10 else MaxResults req)] \<and>
         placeholders sql = [1..<2 * length terms + 4] \<and>
         fst (termsLoop terms ([], [], 1)) \<noteq> []"
proof -
  from handler_query [OF assms(1,2)]
  have q: "(sql, args) = buildQuery tbl (clampMaxResults req)"
    and v: "\<exists>cols. allowed (Model req) = Some cols \<and> set (Fields req) \<subseteq> set cols"
    by simp_all
  from q have s: "sql = fst (buildQuery tbl (clampMaxResults req))"
    and a: "args = snd (buildQuery tbl (clampMaxResults req))"
    by (metis fst_conv, metis snd_conv)
  have args: "args = likeArgs terms @
           [ArgString (''%'' @ ToLower tbl (QueryText req) @ ''%''),
            ArgString (''%'' @ ToLower tbl (QueryText req) @ ''%''),
            ArgInt (if MaxResults req \<le> 0 \<or> MaxResults req > 100 then 10 else MaxResults req)]"
    unfolding a assms(4) by (simp add: buildQuery_closed clamp_MaxResults)
  then have len: "length args = 2 * length terms + 3"
    by (simp add: likeArgs_length)
  from v assms(3) have "CHR ''$'' \<notin> set (Model req)"
    and "\<forall>f \<in> set (Fields req). CHR ''$'' \<notin> set f"
    by (auto simp: dollarFree_def)
  then have d: "CHR ''$'' \<notin> set (Join (Fields req) '', '')" "CHR ''$'' \<notin> set (Model req)"
    by (simp_all add: Join_no_dollar)
  have ph: "placeholders sql = [1..<2 * length terms + 4]"
    unfolding s assms(4) buildQuery_closed fst_conv clamp_fields
    by (rule placeholders_queryStr [OF d])
  have "terms \<noteq> []"
    by (simp add: assms(4) prepareSearchTerms_nonempty)
  then have "termGroups 1 (length terms) \<noteq> []"
    by (cases terms) simp_all
  then have fb: "fst (termsLoop terms ([], [], 1)) \<noteq> []"
    by (simp add: termsLoop_closed)
  from len args ph fb show ?thesis
    by (intro conjI)
qed

theorem arguments_match_placeholders_witness:
  "(laptopSQL, laptopArgs) \<in> set (snd (MakeQueryHandler latin1Table failingDB allowedMain laptopRequest)) \<and>
   Body laptopRequest = Some laptopBody \<and>
   prepareSearchTerms latin1Table (QueryText laptopBody) = [''laptop'', ''stand''] \<and>
   length laptopArgs = 7 \<and>
   placeholders laptopSQL = [1, 2, 3, 4, 5, 6, 7]"
proof -
  have m: "(laptopSQL, laptopArgs) \<in> set (snd (MakeQueryHandler latin1Table failingDB allowedMain laptopRequest))"
    by (simp add: laptop_result)
  have b: "Body laptopRequest = Some laptopBody"
    by (simp add: laptopRequest_def)
  have t: "[''laptop'', ''stand''] = prepareSearchTerms latin1Table (QueryText laptopBody)"
    by (simp add: laptopBody_def laptop_terms)
  note inst = arguments_match_placeholders [OF m b allowedMain_dollarFree t]
  from inst have "length laptopArgs = 2 * length [''laptop'', ''stand''] + 3"
    by (rule conjunct1)
  then have l: "length laptopArgs = 7"
    by simp
  from inst have "placeholders laptopSQL = [1..<2 * length [''laptop'', ''stand''] + 4]"
    by blast
  also have "[1..<2 * length [''laptop'', ''stand''] + 4] = [1, 2, 3, 4, 5, 6, 7]"
    by code_simp
  finally have p: "placeholders laptopSQL = [1, 2, 3, 4, 5, 6, 7]" .
  from m b t [symmetric] l p show ?thesis
    by (intro conjI)
qed

section \<open>A field outside the allow-list\<close>

text \<open>
  Whatever else a request holds, when its field list has a field that the allow-list of
  its model does not permit, the ranking handler sends nothing to the database.
\<close>

lemma disallowed_field_no_query:
  assumes "Body r = Some req" and "allowed (Model req) = Some cols"
    and "\<not> set (Fields req) \<subseteq> set cols"
  shows "snd (MakeQueryHandler tbl db allowed r) = []"
proof -
  from fieldsCheck_first [OF assms(3)] obtain f
    where "fieldsCheck (allowedSetLoop cols (\<lambda>f. False)) (Fields req) = Some f"
    by blast
  with assms(1,2) show ?thesis
    by (simp add: MakeQueryHandler_def Let_def)
qed

text \<open>
  C1. A search request is a \<open>POST\<close> whose body was decoded and whose model and query text
  are not empty. When its model is in the allow-list and its field list holds a field
  that the allow-list of the model does not permit, the ranking handler sends nothing to
  the database and answers with status 400 and the message
  \<open>field 'f' not allowed for model 'm'\<close>, where \<open>f\<close> is the first such field of the list.
\<close>

theorem disallowed_field_rejected_before_query:
  assumes "Method r = ''POST''" and "Body r = Some req"
    and "Model req \<noteq> []" and "QueryText req \<noteq> []"
    and "allowed (Model req) = Some cols"
    and "\<not> set (Fields req) \<subseteq> set cols"
  shows "snd (MakeQueryHandler tbl db allowed r) = [] \<and>
         status (fst (MakeQueryHandler tbl db allowed r)) = 400 \<and>
         (\<exists>pre f post. Fields req = pre @ f # post \<and> set pre \<subseteq> set cols \<and> f \<notin> set cols \<and>
            fst (MakeQueryHandler tbl db allowed r) =
              http_Error (fieldNotAllowed f (Model req)) 400)"
proof -
  from fieldsCheck_first [OF assms(6)] obtain pre f post
    where f: "Fields req = pre @ f # post" "set pre \<subseteq> set cols" "f \<notin> set cols"
      "fieldsCheck (allowedSetLoop cols (\<lambda>f. False)) (Fields req) = Some f"
    by blast
  have r: "MakeQueryHandler tbl db allowed r = (http_Error (fieldNotAllowed f (Model req)) 400, [])"
    using assms(1-5) f(1,4) by (simp add: MakeQueryHandler_def Let_def)
  have 1: "snd (MakeQueryHandler tbl db allowed r) = []"
    by (simp add: r)
  have 2: "status (fst (MakeQueryHandler tbl db allowed r)) = 400"
    by (simp add: r http_Error_def)
  have 3: "\<exists>pre f post. Fields req = pre @ f # post \<and> set pre \<subseteq> set cols \<and> f \<notin> set cols \<and>
      fst (MakeQueryHandler tbl db allowed r) = http_Error (fieldNotAllowed f (Model req)) 400"
    using f(1,2,3) r by (metis fst_conv)
  from 1 2 3 show ?thesis by blast
qed

theorem disallowed_field_rejected_before_query_witness:
  "Method bogusRequest = ''POST'' \<and> Body bogusRequest = Some bogusBody \<and>
   Model bogusBody = ''items'' \<and> QueryText bogusBody = ''stand'' \<and>
   allowedMain (Model bogusBody) =
     Some [''id'', ''name'', ''category'', ''price_ugx'', ''available''] \<and>
   Fields bogusBody = [''name'', ''bogus''] \<and>
   snd (MakeQueryHandler latin1Table twoRowsDB allowedMain bogusRequest) = [] \<and>
   status (fst (MakeQueryHandler latin1Table twoRowsDB allowedMain bogusRequest)) = 400 \<and>
   fst (MakeQueryHandler latin1Table twoRowsDB allowedMain bogusRequest) =
     http_Error (fieldNotAllowed ''bogus'' ''items'') 400"
proof -
  have p: "Method bogusRequest = ''POST''"
    by (simp add: bogusRequest_def)
  have b: "Body bogusRequest = Some bogusBody"
    by (simp add: bogusRequest_def)
  have m: "Model bogusBody = ''items''"
    by (simp add: bogusBody_def)
  have q: "QueryText bogusBody = ''stand''"
    by (simp add: bogusBody_def)
  have m0: "Model bogusBody \<noteq> []"
    by (simp add: m)
  have q0: "QueryText bogusBody \<noteq> []"
    by (simp add: q)
  have a: "allowedMain (Model bogusBody) =
      Some [''id'', ''name'', ''category'', ''price_ugx'', ''available'']"
    by (simp add: bogusBody_def allowedMain_def)
  have n: "\<not> set (Fields bogusBody) \<subseteq> set [''id'', ''name'', ''category'', ''price_ugx'', ''available'']"
    by (simp add: bogusBody_def)
  have fs: "Fields bogusBody = [''name'', ''bogus'']"
    by (simp add: bogusBody_def)
  have r: "fst (MakeQueryHandler latin1Table twoRowsDB allowedMain bogusRequest) =
      http_Error (fieldNotAllowed ''bogus'' ''items'') 400"
    by (simp add: MakeQueryHandler_def bogusRequest_def bogusBody_def allowedMain_def
        clampMaxResults_def Let_def)
  note inst = disallowed_field_rejected_before_query [where r = bogusRequest and req = bogusBody
      and allowed = allowedMain and db = twoRowsDB and tbl = latin1Table
      and cols = "[''id'', ''name'', ''category'', ''price_ugx'', ''available'']",
      OF p b m0 q0 a n]
  from inst have s: "snd (MakeQueryHandler latin1Table twoRowsDB allowedMain bogusRequest) = []"
    by (rule conjunct1)
  from inst have t: "status (fst (MakeQueryHandler latin1Table twoRowsDB allowedMain bogusRequest)) = 400"
    by blast
  from p b m q a fs s t r show ?thesis
    by (intro conjI)
qed

section \<open>The generic handler and the ordering clause\<close>

text \<open>
  The generic handler keeps the fields of the request that the allow-list permits and
  drops the others without an error; it searches the fields it kept and always selects
  every column.
\<close>

lemma generic_selects_every_column:
  "snd (MakeQueryHandlerG db allowedMain userRequest) =
     [(''SELECT * FROM items WHERE name ILIKE '%' || $1 || '%' LIMIT $2'',
       [ArgString ''stand'', ArgInt 50])] \<and>
   FieldsG userBody = [''name'', ''password''] \<and>
   ''password'' \<notin> set [''id'', ''name'', ''category'', ''price_ugx'', ''available'']"
  by (simp add: user_result userSQL_def userBody_def)

text \<open>
  The order of the rows is the database's. What the ranking handler contributes is the
  \<open>ORDER BY\<close> text below, the pattern \<open>%\<close> + lowercased query text + \<open>%\<close> bound to
  both of its parameters (the query text goes into the pattern as it is, nothing in it
  is escaped), and the rows in the order in which the cursor delivers them.
\<close>

lemma order_clause_and_exact_pattern:
  assumes "(sql, args) \<in> set (snd (MakeQueryHandler tbl db allowed r))" and "Body r = Some req"
    and "n = length (prepareSearchTerms tbl (QueryText req))"
  shows "(\<exists>selectCols whereClause limitIdx.
            sql = queryStrText selectCols (Model req) whereClause
                    (orderClauseText (2 * n + 1) (2 * n + 2)) limitIdx) \<and>
         args ! (2 * n) = ArgString (''%'' @ ToLower tbl (QueryText req) @ ''%'') \<and>
         args ! (2 * n + 1) = ArgString (''%'' @ ToLower tbl (QueryText req) @ ''%'')"
proof -
  from handler_query [OF assms(1,2)]
  have q: "(sql, args) = buildQuery tbl (clampMaxResults req)"
    by simp
  then have s: "sql = fst (buildQuery tbl (clampMaxResults req))"
    and a: "args = snd (buildQuery tbl (clampMaxResults req))"
    by (metis fst_conv, metis snd_conv)
  have "\<exists>selectCols whereClause limitIdx.
      sql = queryStrText selectCols (Model req) whereClause
        (orderClauseText (2 * n + 1) (2 * n + 2)) limitIdx"
    unfolding s assms(3) buildQuery_closed fst_conv clamp_fields by blast
  moreover have "args ! (2 * n) = ArgString (''%'' @ ToLower tbl (QueryText req) @ ''%'')"
    "args ! (2 * n + 1) = ArgString (''%'' @ ToLower tbl (QueryText req) @ ''%'')"
    unfolding a assms(3) buildQuery_closed snd_conv clamp_fields
    by (simp_all add: nth_append likeArgs_length)
  ultimately show ?thesis by simp
qed

end
